theory Spec2Isabelle
  imports Main "HOL-Library.Sublist"
begin

section \<open>Data model of \<open>parse.cpp\<close>\<close>

text \<open>
  The result enumeration \<open>ParseResult\<close> and the output structure \<open>Request\<close>.
  A \<open>std::string\<close> is a list of bytes; the \<open>std::map\<close> of headers is a partial map
  from keys to values.
\<close>

datatype ParseResult =
    success
  | method_too_long
  | url_too_long
  | version_too_long
  | invalid_method
  | invalid_url
  | invalid_version
  | invalid_format
  | invalid_headers
  | invalid_crlf

record Request =
  "method" :: string
  url :: string
  version :: string
  headers :: "string \<rightharpoonup> string"

text \<open>A default-constructed \<open>Request req;\<close> as in \<open>main\<close>.\<close>

definition Request_default :: Request where
  "Request_default = \<lparr>method = [], url = [], version = [], headers = Map.empty\<rparr>"

text \<open>
  The parser's private enumeration \<open>State\<close>; the constructors carry a prefix because
  the bare names are the fields of \<open>Request\<close>.
\<close>

datatype State = St_method | St_url | St_version | St_headers

definition SPACE :: char where "SPACE = CHR '' ''"
definition CR :: char where "CR = CHR 0x0D"
definition LF :: char where "LF = CHR 0x0A"
definition CRLF :: string where "CRLF = [CR, LF]"

definition max_method_len :: nat where "max_method_len = 32"
definition max_url_len :: nat where "max_url_len = 1024"
definition max_version_len :: nat where "max_version_len = 32"

section \<open>What the C++ library does where HOL would be silent\<close>

text \<open>
  Two things can go wrong below the level of \<open>ParseResult\<close>: \<open>data[i]\<close> with \<open>i\<close>
  outside the buffer, and \<open>substr\<close> with a start position beyond the size of the string
  (it throws \<open>std::out_of_range\<close>). Both are values of the model. Running out of memory
  while a string grows is not modelled.

  Indices are \<open>size_t\<close> in the source and natural numbers here, and no index wraps:
  \<open>i + 1\<close> is formed with \<open>i < len\<close>, \<open>i + 2\<close> and \<open>i += 2\<close> only after \<open>i + 1 < len\<close>,
  \<open>i + 3\<close> only after \<open>i + 2 < len\<close>; \<open>end + delimiter.length()\<close> and \<open>iter + 2\<close> are
  at most the size of the string searched, and \<open>end - start\<close> is taken with
  \<open>start \<le> end\<close>.
\<close>

datatype fault = out_of_bounds | out_of_range

text \<open>
  \<open>data[i]\<close>. Reading at or beyond the size of the buffer is a fault. This is the view of
  the buffer as raw bytes; \<open>std::string\<close> itself still answers the index equal to its size
  (with NUL), so a parse without fault in the model is one without undefined behaviour.
\<close>

definition at :: "string \<Rightarrow> nat \<Rightarrow> fault + char" where
  "at data i = (if i < length data then Inr (data ! i) else Inl out_of_bounds)"

text \<open>\<open>str.substr(pos, count)\<close> and \<open>str.substr(pos)\<close>.\<close>

definition substr :: "string \<Rightarrow> nat \<Rightarrow> nat \<Rightarrow> fault + string" where
  "substr str pos count =
     (if pos \<le> length str then Inr (take count (drop pos str)) else Inl out_of_range)"

definition substr_from :: "string \<Rightarrow> nat \<Rightarrow> fault + string" where
  "substr_from str pos =
     (if pos \<le> length str then Inr (drop pos str) else Inl out_of_range)"

text \<open>
  \<open>str.find(delimiter, pos)\<close>: the least position at or after \<open>pos\<close> where \<open>delimiter\<close>
  occurs in \<open>str\<close>; \<open>None\<close> is \<open>std::string::npos\<close>.
\<close>

function find_str :: "string \<Rightarrow> string \<Rightarrow> nat \<Rightarrow> nat option" where
  "find_str str d pos =
     (if pos + length d \<le> length str
      then (if take (length d) (drop pos str) = d then Some pos
            else find_str str d (pos + 1))
      else None)"
  by pat_completeness auto
termination
proof (relation "measure (\<lambda>(str, d, pos). length str - pos)")
  show "wf (measure (\<lambda>(str, d, pos). length str - pos))" by simp
next
  fix str d :: string and pos :: nat
  assume le: "pos + length d \<le> length str"
    and ne: "take (length d) (drop pos str) \<noteq> d"
  from ne have "d \<noteq> []" by auto
  with le have "pos < length str" by (cases d) auto
  then show "((str, d, pos + 1), (str, d, pos)) \<in> measure (\<lambda>(str, d, pos). length str - pos)"
    by simp
qed

declare find_str.simps [simp del]

text \<open>\<open>headers.emplace(key, value)\<close>: inserts only when the key is absent.\<close>

definition emplace :: "(string \<rightharpoonup> string) \<Rightarrow> string \<Rightarrow> string \<Rightarrow> (string \<rightharpoonup> string)" where
  "emplace m key val = (case m key of None \<Rightarrow> m(key \<mapsto> val) | Some _ \<Rightarrow> m)"

section \<open>\<open>Parser::string_split\<close>\<close>

text \<open>
  The \<open>while (end != npos)\<close> loop with its variables \<open>start\<close>, \<open>end\<close> and \<open>tokens\<close>.
  With an empty delimiter the C++ loop never ends (\<open>find\<close> keeps returning \<open>start\<close>), so
  the loop is a partial function: \<open>None\<close> is "does not return".
\<close>

partial_function (option) string_split_loop ::
  "string \<Rightarrow> string \<Rightarrow> nat \<Rightarrow> nat option \<Rightarrow> string list \<Rightarrow> (fault + string list) option" where
  "string_split_loop str d start end tokens =
     (case end of
        None \<Rightarrow>
          (case substr_from str start of
             Inl f \<Rightarrow> Some (Inl f)
           | Inr t \<Rightarrow> Some (Inr (tokens @ [t])))
      | Some e \<Rightarrow>
          (case substr str start (e - start) of
             Inl f \<Rightarrow> Some (Inl f)
           | Inr t \<Rightarrow>
               string_split_loop str d (e + length d) (find_str str d (e + length d))
                 (tokens @ [t])))"

declare string_split_loop.simps [code]

definition string_split :: "string \<Rightarrow> string \<Rightarrow> (fault + string list) option" where
  "string_split str d = string_split_loop str d 0 (find_str str d 0) []"

section \<open>\<open>Parser::split_headers\<close>\<close>

text \<open>
  The range-for over the tokens. The request is updated in place, so the record reached
  when a token without the separator stops the loop is returned together with \<open>False\<close>.
\<close>

fun split_headers_loop :: "string list \<Rightarrow> Request \<Rightarrow> fault + (bool \<times> Request)" where
  "split_headers_loop [] req = Inr (True, req)"
| "split_headers_loop (token # tokens) req =
     (case find_str token '': '' 0 of
        None \<Rightarrow> Inr (False, req)
      | Some iter \<Rightarrow>
          (case substr token 0 iter of
             Inl f \<Rightarrow> Inl f
           | Inr key \<Rightarrow>
               (case substr_from token (iter + 2) of
                  Inl f \<Rightarrow> Inl f
                | Inr val \<Rightarrow>
                    split_headers_loop tokens
                      (req\<lparr>headers := emplace (headers req) key val\<rparr>))))"

definition split_headers :: "string \<Rightarrow> Request \<Rightarrow> (fault + (bool \<times> Request)) option" where
  "split_headers str req =
     (case string_split str CRLF of
        None \<Rightarrow> None
      | Some (Inl f) \<Rightarrow> Some (Inl f)
      | Some (Inr tokens) \<Rightarrow> Some (split_headers_loop tokens req))"

section \<open>\<open>Parser::parse\<close>\<close>

text \<open>
  One pass of the body of \<open>while (i < len && !stop)\<close>: either the loop goes on with new
  values of \<open>i\<close>, \<open>state\<close>, \<open>headers\<close>, \<open>stop\<close> and \<open>req\<close>, or \<open>parse\<close> returns from
  inside the loop, or a read faults. Every pass that goes on either sets \<open>stop\<close> or moves
  \<open>i\<close> forward, which is why the loop below terminates.
\<close>

datatype step =
    Next nat State string bool Request
  | Ret ParseResult Request
  | Flt fault

text \<open>
  The condition \<open>i + 2 < len && data[i + 2] == CR && i + 3 < len && data[i + 3] == LF\<close>,
  with the short-circuit order of its reads.
\<close>

definition blank_line_follows :: "string \<Rightarrow> nat \<Rightarrow> nat \<Rightarrow> fault + bool" where
  "blank_line_follows data len i =
     (if i + 2 < len then
        (case at data (i + 2) of
           Inl f \<Rightarrow> Inl f
         | Inr c2 \<Rightarrow>
             if c2 = CR then
               (if i + 3 < len then
                  (case at data (i + 3) of
                     Inl f \<Rightarrow> Inl f
                   | Inr c3 \<Rightarrow> Inr (c3 = LF))
                else Inr False)
             else Inr False)
      else Inr False)"

definition parse_step :: "string \<Rightarrow> nat \<Rightarrow> nat \<Rightarrow> State \<Rightarrow> string \<Rightarrow> Request \<Rightarrow> step" where
  "parse_step data len i state hdrs req =
     (case at data i of
        Inl f \<Rightarrow> Flt f
      | Inr c \<Rightarrow>
         (case state of
            St_method \<Rightarrow>
              if c = SPACE then
                (if method req = [] then Ret invalid_method req
                 else Next (i + 1) St_url hdrs False req)
              else if c = CR \<or> c = LF then Ret invalid_format req
              else if length (method req) = max_method_len then Ret method_too_long req
              else Next (i + 1) St_method hdrs False (req\<lparr>method := method req @ [c]\<rparr>)
          | St_url \<Rightarrow>
              if c = SPACE then
                (if url req = [] then Ret invalid_url req
                 else Next (i + 1) St_version hdrs False req)
              else if c = CR \<or> c = LF then Ret invalid_format req
              else if length (url req) = max_url_len then Ret url_too_long req
              else Next (i + 1) St_url hdrs False (req\<lparr>url := url req @ [c]\<rparr>)
          | St_version \<Rightarrow>
              if c = CR then
                (if version req = [] then Ret invalid_format req
                 else if i + 1 \<ge> len then Ret invalid_format req
                 else
                   (case at data (i + 1) of
                      Inl f \<Rightarrow> Flt f
                    | Inr c1 \<Rightarrow>
                        if c1 \<noteq> LF then Ret invalid_crlf req
                        else Next (i + 2) St_headers hdrs False req))
              else if length (version req) = max_version_len then Ret version_too_long req
              else Next (i + 1) St_version hdrs False (req\<lparr>version := version req @ [c]\<rparr>)
          | St_headers \<Rightarrow>
              if c = CR then
                (if i + 1 \<ge> len then Ret invalid_format req
                 else
                   (case at data (i + 1) of
                      Inl f \<Rightarrow> Flt f
                    | Inr c1 \<Rightarrow>
                        if c1 \<noteq> LF then Ret invalid_format req
                        else
                          (case blank_line_follows data len i of
                             Inl f \<Rightarrow> Flt f
                           | Inr True \<Rightarrow> Next i St_headers hdrs True req
                           | Inr False \<Rightarrow> Next (i + 2) St_headers (hdrs @ CRLF) False req)))
              else if c = LF then Ret invalid_headers req
              else Next (i + 1) St_headers (hdrs @ [c]) False req))"

text \<open>
  How the loop is left: by a \<open>return\<close> inside it, or by its condition with the header text
  accumulated so far.
\<close>

datatype loop_exit = Returned ParseResult Request | Finished string Request

function parse_loop ::
  "string \<Rightarrow> nat \<Rightarrow> nat \<Rightarrow> State \<Rightarrow> string \<Rightarrow> bool \<Rightarrow> Request \<Rightarrow> fault + loop_exit" where
  "parse_loop data len i state hdrs stop req =
     (if i < len \<and> \<not> stop then
        (case parse_step data len i state hdrs req of
           Next i' state' hdrs' stop' req' \<Rightarrow> parse_loop data len i' state' hdrs' stop' req'
         | Ret r req' \<Rightarrow> Inr (Returned r req')
         | Flt f \<Rightarrow> Inl f)
      else Inr (Finished hdrs req))"
  by pat_completeness auto
termination
proof (relation "measure (\<lambda>(data, len, i, state, hdrs, stop, req).
                    if stop then 0 else Suc (len - i))")
  show "wf (measure (\<lambda>(data, len, i, state, hdrs, stop, req).
              if stop then 0 else Suc (len - i)))" by simp
next
  fix data :: string and len i :: nat and state :: State and hdrs :: string
    and stop :: bool and req :: Request and i' state' hdrs' stop' req'
  assume go: "i < len \<and> \<not> stop"
    and st: "parse_step data len i state hdrs req = Next i' state' hdrs' stop' req'"
  from st have "stop' \<or> i < i'"
    by (auto simp: parse_step_def split: sum.splits State.splits if_splits bool.splits)
  with go show "((data, len, i', state', hdrs', stop', req'), (data, len, i, state, hdrs, stop, req))
        \<in> measure (\<lambda>(data, len, i, state, hdrs, stop, req).
                      if stop then 0 else Suc (len - i))"
    by auto
qed

declare parse_loop.simps [simp del]

text \<open>
  \<open>parse\<close> itself: the loop from \<open>i = 0\<close> in state \<open>method\<close> with empty header text, then
  \<open>split_headers\<close>. The request is an in-out parameter, so every return hands back the
  record as it stands next to the result code.
\<close>

definition parse :: "string \<Rightarrow> nat \<Rightarrow> Request \<Rightarrow> (fault + (ParseResult \<times> Request)) option" where
  "parse data len req =
     (case parse_loop data len 0 St_method [] False req of
        Inl f \<Rightarrow> Some (Inl f)
      | Inr (Returned r req') \<Rightarrow> Some (Inr (r, req'))
      | Inr (Finished hdrs req') \<Rightarrow>
          (case split_headers hdrs req' of
             None \<Rightarrow> None
           | Some (Inl f) \<Rightarrow> Some (Inl f)
           | Some (Inr (ok, req'')) \<Rightarrow>
               if \<not> ok then Some (Inr (invalid_headers, req''))
               else Some (Inr (success, req''))))"

section \<open>The inputs the claims speak of\<close>

text \<open>
  The claims describe requests by their grammar. A header line is a key, the separator and a
  value; a request is the request line, the header lines, each ended by CRLF, and the blank
  line. The header text that \<open>parse\<close> hands to \<open>split_headers\<close> has the lines joined by
  CRLF, with none after the last.
\<close>

definition header_line :: "string \<times> string \<Rightarrow> string" where
  "header_line kv = fst kv @ '': '' @ snd kv"

definition request_text :: "string \<Rightarrow> string \<Rightarrow> string \<Rightarrow> string list \<Rightarrow> string" where
  "request_text m t v lines =
     m @ [SPACE] @ t @ [SPACE] @ v @ CRLF @ concat (map (\<lambda>l. l @ CRLF) lines) @ CRLF"

fun join_lines :: "string list \<Rightarrow> string" where
  "join_lines [] = []"
| "join_lines [l] = l"
| "join_lines (l # l' # ls) = l @ CRLF @ join_lines (l' # ls)"

section \<open>Invariants of the loop\<close>

text \<open>
  Two facts that every pass of the loop keeps. The three tokens never grow beyond their limits
  (when they start within them). And the state tells which tokens are complete: a state is
  left only over a non-empty token, and header text is accumulated in the last state only.
\<close>

definition within_limits :: "Request \<Rightarrow> bool" where
  "within_limits req \<longleftrightarrow>
     length (method req) \<le> max_method_len \<and> length (url req) \<le> max_url_len \<and>
     length (version req) \<le> max_version_len"

definition tokens_seen :: "State \<Rightarrow> string \<Rightarrow> Request \<Rightarrow> bool" where
  "tokens_seen state hdrs req \<longleftrightarrow>
     (case state of
        St_method \<Rightarrow> hdrs = []
      | St_url \<Rightarrow> hdrs = [] \<and> method req \<noteq> []
      | St_version \<Rightarrow> hdrs = [] \<and> method req \<noteq> [] \<and> url req \<noteq> []
      | St_headers \<Rightarrow> method req \<noteq> [] \<and> url req \<noteq> [] \<and> version req \<noteq> [])"

text \<open>The record with which the loop is left.\<close>

fun exit_record :: "loop_exit \<Rightarrow> Request" where
  "exit_record (Returned r req) = req"
| "exit_record (Finished hdrs req) = req"

section \<open>What the first three states store, read off the buffer\<close>

text \<open>
  The method and url states append any byte but space, CR and LF, the version state any
  byte but CR. For a buffer \<open>b\<close> (the first \<open>len\<close> bytes of the data): the method bytes are
  the run of such bytes at its start, and the method is completed when that run is
  non-empty, within the limit and followed by a space. The url bytes are the like run after
  that space, and the version bytes the run of bytes other than CR after the space that
  completes the url.
\<close>

definition method_byte :: "char \<Rightarrow> bool" where
  "method_byte c \<longleftrightarrow> c \<noteq> SPACE \<and> c \<noteq> CR \<and> c \<noteq> LF"

definition version_byte :: "char \<Rightarrow> bool" where
  "version_byte c \<longleftrightarrow> c \<noteq> CR"

definition method_part :: "string \<Rightarrow> string" where
  "method_part b = takeWhile method_byte b"

definition method_done :: "string \<Rightarrow> bool" where
  "method_done b \<longleftrightarrow>
     method_part b \<noteq> [] \<and> length (method_part b) \<le> max_method_len \<and>
     take 1 (dropWhile method_byte b) = [SPACE]"

definition after_method :: "string \<Rightarrow> string" where
  "after_method b = drop 1 (dropWhile method_byte b)"

definition url_part :: "string \<Rightarrow> string" where
  "url_part b = takeWhile method_byte (after_method b)"

definition url_done :: "string \<Rightarrow> bool" where
  "url_done b \<longleftrightarrow>
     method_done b \<and> url_part b \<noteq> [] \<and> length (url_part b) \<le> max_url_len \<and>
     take 1 (dropWhile method_byte (after_method b)) = [SPACE]"

definition after_url :: "string \<Rightarrow> string" where
  "after_url b = drop 1 (dropWhile method_byte (after_method b))"

definition version_part :: "string \<Rightarrow> string" where
  "version_part b = takeWhile version_byte (after_url b)"

section \<open>The library functions and the two splitting passes return\<close>

lemma find_str_SomeD:
  "find_str str d pos = Some e \<Longrightarrow>
     pos \<le> e \<and> e + length d \<le> length str \<and> take (length d) (drop e str) = d"
proof (induction str d pos rule: find_str.induct)
  case (1 str d pos)
  show ?case
  proof (cases "pos + length d \<le> length str")
    case False
    with "1.prems" show ?thesis by (simp add: find_str.simps [of str d pos])
  next
    case le: True
    show ?thesis
    proof (cases "take (length d) (drop pos str) = d")
      case True
      with le "1.prems" show ?thesis by (simp add: find_str.simps [of str d pos])
    next
      case False
      with le "1.prems" have "find_str str d (pos + 1) = Some e"
        by (simp add: find_str.simps [of str d pos])
      from "1.IH" [OF le False this] show ?thesis by simp
    qed
  qed
qed

lemma string_split_loop_returns:
  assumes "d \<noteq> []"
  shows "start \<le> length str \<Longrightarrow>
         (\<And>e. en = Some e \<Longrightarrow> start \<le> e \<and> e + length d \<le> length str) \<Longrightarrow>
         \<exists>ts. string_split_loop str d start en tokens = Some (Inr ts)"
proof (induction "length str - start" arbitrary: start en tokens rule: less_induct)
  case less
  show ?case
  proof (cases en)
    case None
    with less.prems(1) show ?thesis
      by (simp add: string_split_loop.simps [of str d start] substr_from_def)
  next
    case (Some e)
    with less.prems(2) have e: "start \<le> e" "e + length d \<le> length str" by auto
    let ?s = "e + length d"
    from e assms have lt: "length str - ?s < length str - start"
      by (cases d) auto
    have "\<exists>ts. string_split_loop str d ?s (find_str str d ?s)
             (tokens @ [take (e - start) (drop start str)]) = Some (Inr ts)"
      using e by (intro less.hyps [OF lt]) (auto dest: find_str_SomeD)
    with Some less.prems(1) show ?thesis
      by (simp add: string_split_loop.simps [of str d start] substr_def)
  qed
qed

lemma string_split_returns:
  "d \<noteq> [] \<Longrightarrow> \<exists>ts. string_split str d = Some (Inr ts)"
  unfolding string_split_def
  by (rule string_split_loop_returns) (auto dest: find_str_SomeD)

lemma split_headers_loop_returns:
  "\<exists>ok req'. split_headers_loop tokens req = Inr (ok, req')"
proof (induction tokens arbitrary: req)
  case Nil
  show ?case by auto
next
  case (Cons token tokens)
  show ?case
  proof (cases "find_str token '': '' 0")
    case None
    then show ?thesis by auto
  next
    case (Some iter)
    from find_str_SomeD [OF Some] have "iter + 2 \<le> length token" by simp
    with Some Cons.IH show ?thesis
      by (simp add: substr_def substr_from_def)
  qed
qed

lemma CRLF_not_Nil: "CRLF \<noteq> []"
  by (simp add: CRLF_def)

lemma split_headers_returns:
  "\<exists>ok req'. split_headers str req = Some (Inr (ok, req'))"
proof -
  from string_split_returns [OF CRLF_not_Nil]
  obtain ts where "string_split str CRLF = Some (Inr ts)" by blast
  with split_headers_loop_returns [of ts req] show ?thesis
    by (auto simp: split_headers_def)
qed

section \<open>The loop of \<open>parse\<close>, one pass at a time\<close>

lemma parse_loop_done:
  "len \<le> i \<or> stop \<Longrightarrow> parse_loop data len i state hdrs stop req = Inr (Finished hdrs req)"
  by (subst parse_loop.simps) auto

lemma parse_loop_Next:
  "i < len \<Longrightarrow> parse_step data len i state hdrs req = Next i' state' hdrs' stop' req' \<Longrightarrow>
   parse_loop data len i state hdrs False req = parse_loop data len i' state' hdrs' stop' req'"
  by (subst parse_loop.simps) simp

lemma parse_loop_Ret:
  "i < len \<Longrightarrow> parse_step data len i state hdrs req = Ret r req' \<Longrightarrow>
   parse_loop data len i state hdrs False req = Inr (Returned r req')"
  by (subst parse_loop.simps) simp

lemma parse_loop_Flt:
  "i < len \<Longrightarrow> parse_step data len i state hdrs req = Flt f \<Longrightarrow>
   parse_loop data len i state hdrs False req = Inl f"
  by (subst parse_loop.simps) simp

lemma parse_step_fault: "at data i = Inl f \<Longrightarrow> parse_step data len i state hdrs req = Flt f"
  by (simp add: parse_step_def)

lemma parse_step_St_method:
  "at data i = Inr c \<Longrightarrow>
   parse_step data len i St_method hdrs req =
     (if c = SPACE then
        (if method req = [] then Ret invalid_method req
         else Next (i + 1) St_url hdrs False req)
      else if c = CR \<or> c = LF then Ret invalid_format req
      else if length (method req) = max_method_len then Ret method_too_long req
      else Next (i + 1) St_method hdrs False (req\<lparr>method := method req @ [c]\<rparr>))"
  by (simp add: parse_step_def)

lemma parse_step_St_url:
  "at data i = Inr c \<Longrightarrow>
   parse_step data len i St_url hdrs req =
     (if c = SPACE then
        (if url req = [] then Ret invalid_url req
         else Next (i + 1) St_version hdrs False req)
      else if c = CR \<or> c = LF then Ret invalid_format req
      else if length (url req) = max_url_len then Ret url_too_long req
      else Next (i + 1) St_url hdrs False (req\<lparr>url := url req @ [c]\<rparr>))"
  by (simp add: parse_step_def)

lemma parse_step_St_version:
  "at data i = Inr c \<Longrightarrow>
   parse_step data len i St_version hdrs req =
     (if c = CR then
        (if version req = [] then Ret invalid_format req
         else if i + 1 \<ge> len then Ret invalid_format req
         else
           (case at data (i + 1) of
              Inl f \<Rightarrow> Flt f
            | Inr c1 \<Rightarrow>
                if c1 \<noteq> LF then Ret invalid_crlf req
                else Next (i + 2) St_headers hdrs False req))
      else if length (version req) = max_version_len then Ret version_too_long req
      else Next (i + 1) St_version hdrs False (req\<lparr>version := version req @ [c]\<rparr>))"
  by (simp add: parse_step_def)

lemma parse_step_St_headers:
  "at data i = Inr c \<Longrightarrow>
   parse_step data len i St_headers hdrs req =
     (if c = CR then
        (if i + 1 \<ge> len then Ret invalid_format req
         else
           (case at data (i + 1) of
              Inl f \<Rightarrow> Flt f
            | Inr c1 \<Rightarrow>
                if c1 \<noteq> LF then Ret invalid_format req
                else
                  (case blank_line_follows data len i of
                     Inl f \<Rightarrow> Flt f
                   | Inr True \<Rightarrow> Next i St_headers hdrs True req
                   | Inr False \<Rightarrow> Next (i + 2) St_headers (hdrs @ CRLF) False req)))
      else if c = LF then Ret invalid_headers req
      else Next (i + 1) St_headers (hdrs @ [c]) False req)"
  by (simp add: parse_step_def)

lemmas parse_step_at =
  parse_step_St_method parse_step_St_url parse_step_St_version parse_step_St_headers

lemma parse_step_progress:
  assumes "parse_step data len i state hdrs req = Next i' state' hdrs' stop' req'"
  shows "stop' \<or> i < i'"
proof (cases "at data i")
  case (Inl f)
  with assms show ?thesis by (simp add: parse_step_fault)
next
  case (Inr c)
  with assms show ?thesis
    by (cases state)
       (auto simp: parse_step_at split: if_splits sum.splits bool.splits)
qed


lemma parse_loop_rule [consumes 1, case_names Next Ret Flt Finished]:
  assumes init: "I i state hdrs stop req"
    and nxt: "\<And>i state hdrs req i' state' hdrs' stop' req'.
        I i state hdrs False req \<Longrightarrow> i < len \<Longrightarrow>
        parse_step data len i state hdrs req = Next i' state' hdrs' stop' req' \<Longrightarrow>
        I i' state' hdrs' stop' req'"
    and ret: "\<And>i state hdrs req r req'.
        I i state hdrs False req \<Longrightarrow> i < len \<Longrightarrow>
        parse_step data len i state hdrs req = Ret r req' \<Longrightarrow> Q (Inr (Returned r req'))"
    and flt: "\<And>i state hdrs req f.
        I i state hdrs False req \<Longrightarrow> i < len \<Longrightarrow>
        parse_step data len i state hdrs req = Flt f \<Longrightarrow> Q (Inl f)"
    and fin: "\<And>i state hdrs stop req.
        I i state hdrs stop req \<Longrightarrow> len \<le> i \<or> stop \<Longrightarrow> Q (Inr (Finished hdrs req))"
  shows "Q (parse_loop data len i state hdrs stop req)"
  using init
proof (induction "if stop then 0 else Suc (len - i)" arbitrary: i state hdrs stop req
    rule: less_induct)
  case less
  show ?case
  proof (cases "len \<le> i \<or> stop")
    case True
    from fin [OF less.prems True] show ?thesis
      by (simp only: parse_loop_done [OF True])
  next
    case False
    then have lt: "i < len" and ns: "stop = False" by auto
    from less.prems ns have inv: "I i state hdrs False req" by simp
    show ?thesis
    proof (cases "parse_step data len i state hdrs req")
      case (Next i' state' hdrs' stop' req')
      from parse_step_progress [OF Next] lt ns
      have "(if stop' then 0 else Suc (len - i')) < (if stop then 0 else Suc (len - i))"
        by auto
      from less.hyps [OF this nxt [OF inv lt Next]] show ?thesis
        by (simp only: ns parse_loop_Next [OF lt Next])
    next
      case (Ret r req')
      from ret [OF inv lt Ret] show ?thesis
        by (simp only: ns parse_loop_Ret [OF lt Ret])
    next
      case (Flt f)
      from flt [OF inv lt Flt] show ?thesis
        by (simp only: ns parse_loop_Flt [OF lt Flt])
    qed
  qed
qed

lemma parse_step_not_invalid_version:
  "parse_step data len i state hdrs req \<noteq> Ret invalid_version req'"
proof (cases "at data i")
  case (Inl f)
  then show ?thesis by (simp add: parse_step_fault)
next
  case (Inr c)
  then show ?thesis
    by (cases state) (auto simp: parse_step_at split: sum.splits bool.splits)
qed

lemma parse_loop_not_invalid_version:
  "parse_loop data len i state hdrs stop req \<noteq> Inr (Returned invalid_version req')"
proof (rule parse_loop_rule [where I = "\<lambda>_ _ _ _ _. True"
      and Q = "\<lambda>x. x \<noteq> Inr (Returned invalid_version req')"])
qed (auto simp: parse_step_not_invalid_version)

lemma blank_line_follows_no_fault:
  "len \<le> length data \<Longrightarrow> blank_line_follows data len i \<noteq> Inl f"
  by (auto simp: blank_line_follows_def at_def)

lemma parse_step_no_fault:
  assumes "i < len" "len \<le> length data"
  shows "parse_step data len i state hdrs req \<noteq> Flt f"
proof -
  from assms have a0: "at data i = Inr (data ! i)" by (simp add: at_def)
  have a1: "Suc i < len \<Longrightarrow> at data (Suc i) = Inr (data ! Suc i)"
    using assms by (simp add: at_def)
  obtain b where b: "blank_line_follows data len i = Inr b"
    using blank_line_follows_no_fault [OF assms(2), of i]
    by (cases "blank_line_follows data len i") auto
  show ?thesis
    by (cases state; cases "Suc i < len"; cases b)
       (simp_all add: parse_step_at [OF a0] a1 b)
qed

lemma parse_loop_no_fault:
  assumes "len \<le> length data"
  shows "parse_loop data len i state hdrs stop req \<noteq> Inl f"
proof (rule parse_loop_rule [where I = "\<lambda>_ _ _ _ _. True" and Q = "\<lambda>x. x \<noteq> Inl f"])
qed (use assms in \<open>auto simp: parse_step_no_fault\<close>)

lemma at_take: "j < len \<Longrightarrow> at (take len data) j = at data j"
  by (auto simp: at_def)

lemma blank_line_follows_take:
  "blank_line_follows (take len data) len i = blank_line_follows data len i"
  unfolding blank_line_follows_def
  by (simp add: at_take cong: if_cong sum.case_cong)

lemma parse_step_take:
  assumes "i < len"
  shows "parse_step (take len data) len i state hdrs req = parse_step data len i state hdrs req"
  unfolding parse_step_def
  using assms
  by (simp add: at_take blank_line_follows_take cong: if_cong sum.case_cong State.case_cong)

lemma parse_loop_take:
  "parse_loop (take len data) len i state hdrs stop req = parse_loop data len i state hdrs stop req"
proof (induction "if stop then 0 else Suc (len - i)" arbitrary: i state hdrs stop req
    rule: less_induct)
  case less
  show ?case
  proof (cases "len \<le> i \<or> stop")
    case True
    then show ?thesis by (simp only: parse_loop_done)
  next
    case False
    then have lt: "i < len" and ns: "stop = False" by auto
    have st: "parse_step (take len data) len i state hdrs req = parse_step data len i state hdrs req"
      using lt by (rule parse_step_take)
    show ?thesis
    proof (cases "parse_step data len i state hdrs req")
      case (Next i' state' hdrs' stop' req')
      from parse_step_progress [OF Next] lt ns
      have "(if stop' then 0 else Suc (len - i')) < (if stop then 0 else Suc (len - i))"
        by auto
      from less.hyps [OF this] show ?thesis
        by (simp only: ns parse_loop_Next [OF lt Next] parse_loop_Next [OF lt st [unfolded Next]])
    next
      case (Ret r req')
      show ?thesis
        by (simp only: ns parse_loop_Ret [OF lt Ret] parse_loop_Ret [OF lt st [unfolded Ret]])
    next
      case (Flt f)
      show ?thesis
        by (simp only: ns parse_loop_Flt [OF lt Flt] parse_loop_Flt [OF lt st [unfolded Flt]])
    qed
  qed
qed

section \<open>What \<open>find\<close> returns, and the two splitting passes on header lines\<close>

lemma find_str_least:
  "find_str str d pos = Some e \<Longrightarrow> pos \<le> k \<Longrightarrow> k < e \<Longrightarrow> take (length d) (drop k str) \<noteq> d"
proof (induction str d pos rule: find_str.induct)
  case (1 str d pos)
  show ?case
  proof (cases "pos + length d \<le> length str")
    case False
    with "1.prems" show ?thesis by (simp add: find_str.simps [of str d pos])
  next
    case le: True
    show ?thesis
    proof (cases "take (length d) (drop pos str) = d")
      case True
      with le "1.prems" show ?thesis by (simp add: find_str.simps [of str d pos])
    next
      case False
      with le "1.prems" have nxt: "find_str str d (pos + 1) = Some e"
        by (simp add: find_str.simps [of str d pos])
      show ?thesis
      proof (cases "k = pos")
        case True
        with False show ?thesis by simp
      next
        case ne: False
        with "1.prems" have "pos + 1 \<le> k" by simp
        from "1.IH" [OF le False nxt this "1.prems"(3)] show ?thesis .
      qed
    qed
  qed
qed

lemma find_str_NoneD:
  "find_str str d pos = None \<Longrightarrow> pos \<le> k \<Longrightarrow> k + length d \<le> length str \<Longrightarrow>
   take (length d) (drop k str) \<noteq> d"
proof (induction str d pos rule: find_str.induct)
  case (1 str d pos)
  from "1.prems" have le: "pos + length d \<le> length str" by simp
  with "1.prems"(1) have ne: "take (length d) (drop pos str) \<noteq> d"
    by (auto simp: find_str.simps [of str d pos] split: if_splits)
  with le "1.prems"(1) have nxt: "find_str str d (pos + 1) = None"
    by (simp add: find_str.simps [of str d pos])
  show ?case
  proof (cases "k = pos")
    case True
    with ne show ?thesis by simp
  next
    case False
    with "1.prems" have "pos + 1 \<le> k" by simp
    from "1.IH" [OF le ne nxt this "1.prems"(3)] show ?thesis .
  qed
qed

lemma find_str_SomeI:
  assumes "pos \<le> e" "e + length d \<le> length str" "take (length d) (drop e str) = d"
    and "\<And>k. pos \<le> k \<Longrightarrow> k < e \<Longrightarrow> take (length d) (drop k str) \<noteq> d"
  shows "find_str str d pos = Some e"
proof (cases "find_str str d pos")
  case None
  from find_str_NoneD [OF None assms(1,2)] assms(3) show ?thesis by simp
next
  case (Some e')
  from find_str_SomeD [OF Some]
  have e': "pos \<le> e'" "e' + length d \<le> length str" "take (length d) (drop e' str) = d"
    by auto
  have "\<not> e' < e" using assms(4) [OF e'(1)] e'(3) by blast
  moreover have "\<not> e < e'" using find_str_least [OF Some assms(1)] assms(3) by blast
  ultimately show ?thesis using Some by simp
qed

lemma find_str_NoneI:
  assumes "\<And>k. pos \<le> k \<Longrightarrow> k + length d \<le> length str \<Longrightarrow> take (length d) (drop k str) \<noteq> d"
  shows "find_str str d pos = None"
proof (cases "find_str str d pos")
  case None
  then show ?thesis .
next
  case (Some e)
  from find_str_SomeD [OF Some] assms [of e] show ?thesis by blast
qed

text \<open>A two-byte delimiter cannot start at a byte that differs from its first byte.\<close>

lemma take2_drop_neq:
  "k < length str \<Longrightarrow> str ! k \<noteq> a \<Longrightarrow> take (length [a, b]) (drop k str) \<noteq> [a, b]"
  by (cases "drop k str") (auto simp: hd_drop_conv_nth dest: arg_cong [where f = hd])

lemma find_CRLF_in_line:
  assumes "CR \<notin> set l"
  shows "find_str (pre @ l @ CRLF @ rest) CRLF (length pre) = Some (length pre + length l)"
proof (rule find_str_SomeI)
  show "length pre \<le> length pre + length l" by simp
  show "length pre + length l + length CRLF \<le> length (pre @ l @ CRLF @ rest)" by simp
  show "take (length CRLF) (drop (length pre + length l) (pre @ l @ CRLF @ rest)) = CRLF"
    by simp
next
  fix k assume k: "length pre \<le> k" "k < length pre + length l"
  then have "k - length pre < length l" by arith
  with k have "(pre @ l @ CRLF @ rest) ! k = l ! (k - length pre)"
    by (simp add: nth_append)
  moreover from k have "l ! (k - length pre) \<in> set l" by simp
  ultimately have "(pre @ l @ CRLF @ rest) ! k \<noteq> CR" using assms by metis
  moreover from k have "k < length (pre @ l @ CRLF @ rest)" by simp
  ultimately show "take (length CRLF) (drop k (pre @ l @ CRLF @ rest)) \<noteq> CRLF"
    unfolding CRLF_def by (rule take2_drop_neq [rotated])
qed

lemma find_CRLF_last_line:
  assumes "CR \<notin> set l"
  shows "find_str (pre @ l) CRLF (length pre) = None"
proof (rule find_str_NoneI)
  fix k assume k: "length pre \<le> k" "k + length CRLF \<le> length (pre @ l)"
  then have "k < length pre + length l" by (simp add: CRLF_def)
  with k have "(pre @ l) ! k = l ! (k - length pre)" "l ! (k - length pre) \<in> set l"
    by (simp_all add: nth_append)
  with assms have "(pre @ l) ! k \<noteq> CR" by metis
  moreover from k have "k < length (pre @ l)" by (simp add: CRLF_def)
  ultimately show "take (length CRLF) (drop k (pre @ l)) \<noteq> CRLF"
    unfolding CRLF_def by (rule take2_drop_neq [rotated])
qed


lemma string_split_loop_lines:
  assumes "lines \<noteq> []" "\<forall>l \<in> set lines. CR \<notin> set l"
  shows "string_split_loop (pre @ join_lines lines) CRLF (length pre)
           (find_str (pre @ join_lines lines) CRLF (length pre)) tokens
         = Some (Inr (tokens @ lines))"
  using assms
proof (induction lines arbitrary: pre tokens rule: join_lines.induct)
  case 1
  then show ?case by simp
next
  case (2 l)
  then have "find_str (pre @ l) CRLF (length pre) = None"
    by (simp add: find_CRLF_last_line)
  then show ?case
    by (simp add: string_split_loop.simps [of _ _ "length pre"] substr_from_def)
next
  case (3 l l' ls)
  let ?str = "pre @ l @ CRLF @ join_lines (l' # ls)"
  let ?pre' = "pre @ l @ CRLF"
  from "3.prems" have l: "CR \<notin> set l" by simp
  have found: "find_str ?str CRLF (length pre) = Some (length pre + length l)"
    using l by (rule find_CRLF_in_line)
  have len': "length pre + length l + length CRLF = length ?pre'" by simp
  have str': "?str = ?pre' @ join_lines (l' # ls)" by simp
  have "string_split_loop ?str CRLF (length pre) (Some (length pre + length l)) tokens
        = string_split_loop ?str CRLF (length ?pre') (find_str ?str CRLF (length ?pre'))
            (tokens @ [l])"
    by (subst string_split_loop.simps) (simp add: substr_def add.assoc)
  also have "\<dots> = Some (Inr ((tokens @ [l]) @ l' # ls))"
    unfolding str' using "3.prems" by (intro "3.IH") simp_all
  finally show ?case using found by simp
qed

lemma string_split_lines:
  assumes "lines \<noteq> []" "\<forall>l \<in> set lines. CR \<notin> set l"
  shows "string_split (join_lines lines) CRLF = Some (Inr lines)"
  using string_split_loop_lines [OF assms, of "[]" "[]"]
  by (simp add: string_split_def)

lemma take_drop_eq_sublist: "take n (drop k s) = d \<Longrightarrow> sublist d s"
proof -
  assume "take n (drop k s) = d"
  then have "s = take k s @ d @ drop n (drop k s)"
    by (metis append_take_drop_id)
  then show ?thesis unfolding sublist_def by blast
qed

lemma find_str_no_sublist:
  "\<not> sublist d l \<Longrightarrow> find_str l d 0 = None"
  by (rule find_str_NoneI) (blast dest: take_drop_eq_sublist)

lemma find_str_two_bytes:
  assumes "\<not> sublist [a, b] k" "a \<noteq> b"
  shows "find_str (k @ [a, b] @ v) [a, b] 0 = Some (length k)"
proof (rule find_str_SomeI)
  show "0 \<le> length k" by simp
  show "length k + length [a, b] \<le> length (k @ [a, b] @ v)" by simp
  show "take (length [a, b]) (drop (length k) (k @ [a, b] @ v)) = [a, b]" by simp
next
  fix j assume j: "j < length k"
  show "take (length [a, b]) (drop j (k @ [a, b] @ v)) \<noteq> [a, b]"
  proof
    assume eq: "take (length [a, b]) (drop j (k @ [a, b] @ v)) = [a, b]"
    show False
    proof (cases "Suc j < length k")
      case True
      then have "take (length [a, b]) (drop j k)
                 = take (length [a, b]) (drop j (k @ [a, b] @ v))"
        by simp
      with eq have "take (length [a, b]) (drop j k) = [a, b]" by simp
      then have "sublist [a, b] k" by (rule take_drop_eq_sublist)
      with assms show False by simp
    next
      case False
      with j have jk: "Suc j = length k" by simp
      then have "drop j k = [k ! j]"
        by (metis Cons_nth_drop_Suc drop_all j order_refl)
      then have "take (length [a, b]) (drop j (k @ [a, b] @ v)) = [k ! j, a]"
        using j by simp
      with eq assms(2) show False by simp
    qed
  qed
qed

lemma find_sep_header_line:
  "\<not> sublist '': '' k \<Longrightarrow> find_str (k @ '': '' @ v) '': '' 0 = Some (length k)"
  by (rule find_str_two_bytes) simp_all

lemma map_of_emplace:
  "map_of kvs ++ emplace m k v = map_of ((k, v) # kvs) ++ m"
  by (rule ext) (auto simp: emplace_def map_add_def split: option.splits)

lemma split_headers_loop_wellformed:
  assumes "\<forall>kv \<in> set kvs. \<not> sublist '': '' (fst kv)"
  shows "split_headers_loop (map header_line kvs) req
         = Inr (True, req\<lparr>headers := map_of kvs ++ headers req\<rparr>)"
  using assms
proof (induction kvs arbitrary: req)
  case Nil
  show ?case by simp
next
  case (Cons kv kvs)
  obtain k v where kv: "kv = (k, v)" by (cases kv)
  from Cons.prems kv have "\<not> sublist '': '' k" by simp
  then have found: "find_str (header_line (k, v)) '': '' 0 = Some (length k)"
    unfolding header_line_def fst_conv snd_conv by (rule find_sep_header_line)
  have key: "substr (header_line (k, v)) 0 (length k) = Inr k"
    and val: "substr_from (header_line (k, v)) (length k + 2) = Inr v"
    by (simp_all add: header_line_def substr_def substr_from_def)
  from Cons.prems have "\<forall>kv \<in> set kvs. \<not> sublist '': '' (fst kv)" by simp
  from Cons.IH [OF this] found key val show ?case
    by (simp add: map_of_emplace kv del: map_of.simps)
qed

lemma split_headers_loop_malformed:
  assumes "l \<in> set lines" "\<not> sublist '': '' l"
  shows "\<exists>req'. split_headers_loop lines req = Inr (False, req')"
  using assms(1)
proof (induction lines arbitrary: req)
  case Nil
  then show ?case by simp
next
  case (Cons token tokens)
  show ?case
  proof (cases "find_str token '': '' 0")
    case None
    then show ?thesis by simp
  next
    case (Some iter)
    from find_str_SomeD [OF Some]
    have le: "iter + 2 \<le> length token"
      and "take (length '': '') (drop iter token) = '': ''"
      by simp_all
    then have "sublist '': '' token" by (blast dest: take_drop_eq_sublist)
    with assms(2) Cons.prems have "l \<in> set tokens" by auto
    from Cons.IH [OF this] Some le show ?thesis
      by (simp add: substr_def substr_from_def)
  qed
qed

section \<open>Runs of the loop over tokens, delimiters and header lines\<close>

lemma drop_eq_ConsD:
  assumes "drop i xs = c # r"
  shows "i < length xs" "xs ! i = c" "drop (Suc i) xs = r"
proof -
  show lt: "i < length xs"
  proof (rule ccontr)
    assume "\<not> i < length xs"
    then have "drop i xs = []" by simp
    with assms show False by simp
  qed
  from Cons_nth_drop_Suc [OF lt] assms show "xs ! i = c" "drop (Suc i) xs = r"
    by simp_all
qed

lemma at_drop_Cons: "drop i data = c # r \<Longrightarrow> at data i = Inr c"
  by (simp add: at_def drop_eq_ConsD)

lemma drop_append_shift: "drop i data = t @ r \<Longrightarrow> drop (i + length t) data = r"
  by (metis add.commute append_eq_conv_conj drop_drop)

lemma chars_distinct [simp]:
  "SPACE \<noteq> CR" "SPACE \<noteq> LF" "CR \<noteq> LF" "CR \<noteq> SPACE" "LF \<noteq> SPACE" "LF \<noteq> CR"
  by (simp_all add: SPACE_def CR_def LF_def)

lemma method_run:
  assumes "drop i data = t @ rest" "i + length t \<le> len"
    and "SPACE \<notin> set t" "CR \<notin> set t" "LF \<notin> set t"
    and "length (method req) + length t \<le> max_method_len"
  shows "parse_loop data len i St_method hdrs False req
         = parse_loop data len (i + length t) St_method hdrs False
             (req\<lparr>method := method req @ t\<rparr>)"
  using assms
proof (induction t arbitrary: i req)
  case Nil
  show ?case by simp
next
  case (Cons c t)
  from Cons.prems(1) have dr: "drop i data = c # (t @ rest)" by simp
  have at: "at data i = Inr c" using dr by (rule at_drop_Cons)
  have dr': "drop (Suc i) data = t @ rest" using dr by (rule drop_eq_ConsD)
  from Cons.prems have lt: "i < len" by simp
  from Cons.prems have c: "c \<noteq> SPACE" "c \<noteq> CR" "c \<noteq> LF" by auto
  from Cons.prems c have step:
    "parse_step data len i St_method hdrs req
     = Next (i + 1) St_method hdrs False (req\<lparr>method := method req @ [c]\<rparr>)"
    by (simp add: parse_step_St_method [OF at])
  let ?req' = "req\<lparr>method := method req @ [c]\<rparr>"
  have "parse_loop data len (Suc i) St_method hdrs False ?req'
        = parse_loop data len (Suc i + length t) St_method hdrs False
            (?req'\<lparr>method := method ?req' @ t\<rparr>)"
    by (rule Cons.IH [OF dr']) (use Cons.prems in simp_all)
  with parse_loop_Next [OF lt step] show ?case by simp
qed

lemma url_run:
  assumes "drop i data = t @ rest" "i + length t \<le> len"
    and "SPACE \<notin> set t" "CR \<notin> set t" "LF \<notin> set t"
    and "length (url req) + length t \<le> max_url_len"
  shows "parse_loop data len i St_url hdrs False req
         = parse_loop data len (i + length t) St_url hdrs False
             (req\<lparr>url := url req @ t\<rparr>)"
  using assms
proof (induction t arbitrary: i req)
  case Nil
  show ?case by simp
next
  case (Cons c t)
  from Cons.prems(1) have dr: "drop i data = c # (t @ rest)" by simp
  have at: "at data i = Inr c" using dr by (rule at_drop_Cons)
  have dr': "drop (Suc i) data = t @ rest" using dr by (rule drop_eq_ConsD)
  from Cons.prems have lt: "i < len" by simp
  from Cons.prems have c: "c \<noteq> SPACE" "c \<noteq> CR" "c \<noteq> LF" by auto
  from Cons.prems c have step:
    "parse_step data len i St_url hdrs req
     = Next (i + 1) St_url hdrs False (req\<lparr>url := url req @ [c]\<rparr>)"
    by (simp add: parse_step_St_url [OF at])
  let ?req' = "req\<lparr>url := url req @ [c]\<rparr>"
  have "parse_loop data len (Suc i) St_url hdrs False ?req'
        = parse_loop data len (Suc i + length t) St_url hdrs False
            (?req'\<lparr>url := url ?req' @ t\<rparr>)"
    by (rule Cons.IH [OF dr']) (use Cons.prems in simp_all)
  with parse_loop_Next [OF lt step] show ?case by simp
qed

lemma version_run:
  assumes "drop i data = t @ rest" "i + length t \<le> len"
    and "CR \<notin> set t"
    and "length (version req) + length t \<le> max_version_len"
  shows "parse_loop data len i St_version hdrs False req
         = parse_loop data len (i + length t) St_version hdrs False
             (req\<lparr>version := version req @ t\<rparr>)"
  using assms
proof (induction t arbitrary: i req)
  case Nil
  show ?case by simp
next
  case (Cons c t)
  from Cons.prems(1) have dr: "drop i data = c # (t @ rest)" by simp
  have at: "at data i = Inr c" using dr by (rule at_drop_Cons)
  have dr': "drop (Suc i) data = t @ rest" using dr by (rule drop_eq_ConsD)
  from Cons.prems have lt: "i < len" by simp
  from Cons.prems have c: "c \<noteq> CR" by auto
  from Cons.prems c have step:
    "parse_step data len i St_version hdrs req
     = Next (i + 1) St_version hdrs False (req\<lparr>version := version req @ [c]\<rparr>)"
    by (simp add: parse_step_St_version [OF at])
  let ?req' = "req\<lparr>version := version req @ [c]\<rparr>"
  have "parse_loop data len (Suc i) St_version hdrs False ?req'
        = parse_loop data len (Suc i + length t) St_version hdrs False
            (?req'\<lparr>version := version ?req' @ t\<rparr>)"
    by (rule Cons.IH [OF dr']) (use Cons.prems in simp_all)
  with parse_loop_Next [OF lt step] show ?case by simp
qed

lemma headers_run:
  assumes "drop i data = t @ rest" "i + length t \<le> len"
    and "CR \<notin> set t" "LF \<notin> set t"
  shows "parse_loop data len i St_headers hdrs False req
         = parse_loop data len (i + length t) St_headers (hdrs @ t) False req"
  using assms
proof (induction t arbitrary: i hdrs)
  case Nil
  show ?case by simp
next
  case (Cons c t)
  from Cons.prems(1) have dr: "drop i data = c # (t @ rest)" by simp
  have at: "at data i = Inr c" using dr by (rule at_drop_Cons)
  have dr': "drop (Suc i) data = t @ rest" using dr by (rule drop_eq_ConsD)
  from Cons.prems have lt: "i < len" by simp
  from Cons.prems have c: "c \<noteq> CR" "c \<noteq> LF" by auto
  from Cons.prems c have step:
    "parse_step data len i St_headers hdrs req
     = Next (i + 1) St_headers (hdrs @ [c]) False req"
    by (simp add: parse_step_St_headers [OF at])
  have "parse_loop data len (Suc i) St_headers (hdrs @ [c]) False req
        = parse_loop data len (Suc i + length t) St_headers ((hdrs @ [c]) @ t) False req"
    by (rule Cons.IH [OF dr']) (use Cons.prems in simp_all)
  with parse_loop_Next [OF lt step] show ?case by simp
qed


lemma method_space:
  assumes "drop i data = SPACE # rest" "i < len" "method req \<noteq> []"
  shows "parse_loop data len i St_method hdrs False req
         = parse_loop data len (Suc i) St_url hdrs False req"
proof -
  have "at data i = Inr SPACE" using assms(1) by (rule at_drop_Cons)
  with assms(3) have "parse_step data len i St_method hdrs req = Next (i + 1) St_url hdrs False req"
    by (simp add: parse_step_St_method)
  from parse_loop_Next [OF assms(2) this] show ?thesis by simp
qed

lemma url_space:
  assumes "drop i data = SPACE # rest" "i < len" "url req \<noteq> []"
  shows "parse_loop data len i St_url hdrs False req
         = parse_loop data len (Suc i) St_version hdrs False req"
proof -
  have "at data i = Inr SPACE" using assms(1) by (rule at_drop_Cons)
  with assms(3) have "parse_step data len i St_url hdrs req = Next (i + 1) St_version hdrs False req"
    by (simp add: parse_step_St_url)
  from parse_loop_Next [OF assms(2) this] show ?thesis by simp
qed

lemma version_crlf:
  assumes "drop i data = CR # LF # rest" "i + 1 < len" "version req \<noteq> []"
  shows "parse_loop data len i St_version hdrs False req
         = parse_loop data len (i + 2) St_headers hdrs False req"
proof -
  have a0: "at data i = Inr CR" using assms(1) by (rule at_drop_Cons)
  from assms(1) have "drop (Suc i) data = LF # rest" by (rule drop_eq_ConsD)
  then have a1: "at data (Suc i) = Inr LF" by (rule at_drop_Cons)
  from assms(2,3) have "parse_step data len i St_version hdrs req = Next (i + 2) St_headers hdrs False req"
    by (simp add: parse_step_St_version [OF a0] a1)
  moreover from assms(2) have "i < len" by simp
  ultimately show ?thesis by (rule parse_loop_Next [rotated])
qed

lemma method_overflow:
  assumes "drop i data = c # rest" "i < len" "c \<noteq> SPACE" "c \<noteq> CR" "c \<noteq> LF"
    and "length (method req) = max_method_len"
  shows "parse_loop data len i St_method hdrs False req = Inr (Returned method_too_long req)"
proof -
  have "at data i = Inr c" using assms(1) by (rule at_drop_Cons)
  with assms(3-) have "parse_step data len i St_method hdrs req = Ret method_too_long req"
    by (simp add: parse_step_St_method)
  with assms(2) show ?thesis by (rule parse_loop_Ret)
qed

lemma url_overflow:
  assumes "drop i data = c # rest" "i < len" "c \<noteq> SPACE" "c \<noteq> CR" "c \<noteq> LF"
    and "length (url req) = max_url_len"
  shows "parse_loop data len i St_url hdrs False req = Inr (Returned url_too_long req)"
proof -
  have "at data i = Inr c" using assms(1) by (rule at_drop_Cons)
  with assms(3-) have "parse_step data len i St_url hdrs req = Ret url_too_long req"
    by (simp add: parse_step_St_url)
  with assms(2) show ?thesis by (rule parse_loop_Ret)
qed

lemma version_overflow:
  assumes "drop i data = c # rest" "i < len" "c \<noteq> CR"
    and "length (version req) = max_version_len"
  shows "parse_loop data len i St_version hdrs False req = Inr (Returned version_too_long req)"
proof -
  have "at data i = Inr c" using assms(1) by (rule at_drop_Cons)
  with assms(3-) have "parse_step data len i St_version hdrs req = Ret version_too_long req"
    by (simp add: parse_step_St_version)
  with assms(2) show ?thesis by (rule parse_loop_Ret)
qed

text \<open>In the headers state: a CRLF before another line, and the CRLF before the blank line.\<close>

lemma headers_crlf_line:
  assumes "drop i data = CR # LF # c # rest" "i + 2 < len" "c \<noteq> CR"
  shows "parse_loop data len i St_headers hdrs False req
         = parse_loop data len (i + 2) St_headers (hdrs @ CRLF) False req"
proof -
  have a0: "at data i = Inr CR" using assms(1) by (rule at_drop_Cons)
  from assms(1) have d1: "drop (Suc i) data = LF # c # rest" by (rule drop_eq_ConsD)
  then have a1: "at data (Suc i) = Inr LF" by (rule at_drop_Cons)
  from d1 have "drop (Suc (Suc i)) data = c # rest" by (rule drop_eq_ConsD)
  then have a2: "at data (Suc (Suc i)) = Inr c" by (rule at_drop_Cons)
  from assms(2,3) a2 have "blank_line_follows data len i = Inr False"
    by (simp add: blank_line_follows_def)
  with assms(2) have "parse_step data len i St_headers hdrs req
      = Next (i + 2) St_headers (hdrs @ CRLF) False req"
    by (simp add: parse_step_St_headers [OF a0] a1)
  moreover from assms(2) have "i < len" by simp
  ultimately show ?thesis by (rule parse_loop_Next [rotated])
qed

lemma headers_blank_line:
  assumes "drop i data = CR # LF # CR # LF # rest" "i + 3 < len"
  shows "parse_loop data len i St_headers hdrs False req = Inr (Finished hdrs req)"
proof -
  have a0: "at data i = Inr CR" using assms(1) by (rule at_drop_Cons)
  from assms(1) have d1: "drop (Suc i) data = LF # CR # LF # rest" by (rule drop_eq_ConsD)
  then have a1: "at data (Suc i) = Inr LF" by (rule at_drop_Cons)
  from d1 have d2: "drop (Suc (Suc i)) data = CR # LF # rest" by (rule drop_eq_ConsD)
  then have a2: "at data (Suc (Suc i)) = Inr CR" by (rule at_drop_Cons)
  from d2 have "drop (Suc (Suc (Suc i))) data = LF # rest" by (rule drop_eq_ConsD)
  then have "at data (Suc (Suc (Suc i))) = Inr LF" by (rule at_drop_Cons)
  then have a3: "at data (i + 3) = Inr LF" by (simp add: numeral_3_eq_3)
  from assms(2) a2 have "blank_line_follows data len i = Inr True"
    by (simp add: blank_line_follows_def a3)
  with assms(2) have "parse_step data len i St_headers hdrs req = Next i St_headers hdrs True req"
    by (simp add: parse_step_St_headers [OF a0] a1)
  moreover from assms(2) have "i < len" by simp
  ultimately have "parse_loop data len i St_headers hdrs False req
      = parse_loop data len i St_headers hdrs True req"
    by (rule parse_loop_Next [rotated])
  then show ?thesis by (simp add: parse_loop_done)
qed

lemma headers_block:
  assumes "lines \<noteq> []" "\<forall>l \<in> set lines. l \<noteq> [] \<and> CR \<notin> set l \<and> LF \<notin> set l"
    and "drop i data = join_lines lines @ CRLF @ CRLF @ rest"
    and "i + length (join_lines lines) + 4 \<le> len"
  shows "parse_loop data len i St_headers hdrs False req
         = Inr (Finished (hdrs @ join_lines lines) req)"
  using assms
proof (induction lines arbitrary: i hdrs rule: join_lines.induct)
  case 1
  then show ?case by simp
next
  case (2 l)
  then have l: "CR \<notin> set l" "LF \<notin> set l" by simp_all
  from "2.prems" have dr: "drop i data = l @ (CRLF @ CRLF @ rest)" by simp
  from "2.prems" have le: "i + length l \<le> len" by simp
  have "parse_loop data len i St_headers hdrs False req
        = parse_loop data len (i + length l) St_headers (hdrs @ l) False req"
    using dr le l by (rule headers_run)
  also have "\<dots> = Inr (Finished (hdrs @ l) req)"
  proof (rule headers_blank_line)
    from drop_append_shift [OF dr]
    show "drop (i + length l) data = CR # LF # CR # LF # rest" by (simp add: CRLF_def)
    from "2.prems" show "i + length l + 3 < len" by simp
  qed
  finally show ?case by simp
next
  case (3 l l' ls)
  then have l: "CR \<notin> set l" "LF \<notin> set l" by simp_all
  let ?next = "join_lines (l' # ls) @ CRLF @ CRLF @ rest"
  from "3.prems" have dr: "drop i data = l @ (CRLF @ ?next)" by simp
  from "3.prems" have le: "i + length l \<le> len" by simp
  from "3.prems" obtain c r where l': "l' = c # r" and c: "c \<noteq> CR"
    by (cases l') auto
  have "\<exists>r'. join_lines (l' # ls) = c # r'"
    by (cases ls) (simp_all add: l')
  then obtain r' where j: "join_lines (l' # ls) = c # r'" ..
  have d2: "drop (i + length l) data = CR # LF # c # (r' @ CRLF @ CRLF @ rest)"
    using drop_append_shift [OF dr] by (simp add: CRLF_def j)
  have "parse_loop data len i St_headers hdrs False req
        = parse_loop data len (i + length l) St_headers (hdrs @ l) False req"
    using dr le l by (rule headers_run)
  also have "\<dots> = parse_loop data len (i + length l + 2) St_headers ((hdrs @ l) @ CRLF) False req"
    using d2 _ c
  proof (rule headers_crlf_line)
    from "3.prems" show "i + length l + 2 < len" by simp
  qed
  also have "\<dots> = Inr (Finished (((hdrs @ l) @ CRLF) @ join_lines (l' # ls)) req)"
  proof (rule "3.IH")
    show "l' # ls \<noteq> []" by simp
    from "3.prems" show "\<forall>l \<in> set (l' # ls). l \<noteq> [] \<and> CR \<notin> set l \<and> LF \<notin> set l" by simp
    have "drop (i + length l + 2) data = drop (length CRLF) (drop (i + length l) data)"
      by (simp add: CRLF_def add.commute)
    also have "\<dots> = ?next"
      using drop_append_shift [OF dr] by simp
    finally show "drop (i + length l + 2) data = ?next" .
    from "3.prems" show "i + length l + 2 + length (join_lines (l' # ls)) + 4 \<le> len"
      by (simp add: CRLF_def)
  qed
  finally show ?case by simp
qed

section \<open>A whole request: the request line and the header block\<close>

lemma reach_url:
  assumes data: "data = m @ SPACE # rest"
    and len: "length m + 1 \<le> len"
    and m: "m \<noteq> []" "length m \<le> max_method_len" "SPACE \<notin> set m" "CR \<notin> set m" "LF \<notin> set m"
    and req: "method req = []"
  shows "parse_loop data len 0 St_method hdrs False req
         = parse_loop data len (length m + 1) St_url hdrs False (req\<lparr>method := m\<rparr>)"
proof -
  let ?r1 = "req\<lparr>method := m\<rparr>"
  have d0: "drop 0 data = m @ (SPACE # rest)" by (simp add: data)
  from drop_append_shift [OF d0] have d1: "drop (length m) data = SPACE # rest" by simp
  have "parse_loop data len 0 St_method hdrs False req
        = parse_loop data len (0 + length m) St_method hdrs False (req\<lparr>method := method req @ m\<rparr>)"
    using d0 _ m(3,4,5)
  proof (rule method_run)
    from len show "0 + length m \<le> len" by simp
    from m req show "length (method req) + length m \<le> max_method_len" by simp
  qed
  also have "\<dots> = parse_loop data len (length m) St_method hdrs False ?r1"
    by (simp add: req)
  also have "\<dots> = parse_loop data len (Suc (length m)) St_url hdrs False ?r1"
    using d1
  proof (rule method_space)
    from len show "length m < len" by simp
    from m show "method ?r1 \<noteq> []" by simp
  qed
  finally show ?thesis by simp
qed

lemma reach_version:
  assumes data: "data = m @ SPACE # t @ SPACE # rest"
    and len: "length m + length t + 2 \<le> len"
    and m: "m \<noteq> []" "length m \<le> max_method_len" "SPACE \<notin> set m" "CR \<notin> set m" "LF \<notin> set m"
    and t: "t \<noteq> []" "length t \<le> max_url_len" "SPACE \<notin> set t" "CR \<notin> set t" "LF \<notin> set t"
    and req: "method req = []" "url req = []"
  shows "parse_loop data len 0 St_method hdrs False req
         = parse_loop data len (length m + length t + 2) St_version hdrs False
             (req\<lparr>method := m, url := t\<rparr>)"
proof -
  let ?r1 = "req\<lparr>method := m\<rparr>"
  let ?r2 = "req\<lparr>method := m, url := t\<rparr>"
  let ?i2 = "length m + 1"
  have "data = (m @ [SPACE]) @ (t @ SPACE # rest)" by (simp add: data)
  moreover have "length (m @ [SPACE]) = ?i2" by simp
  ultimately have d2: "drop ?i2 data = t @ (SPACE # rest)"
    by (metis append_eq_conv_conj)
  from drop_append_shift [OF d2] have d3: "drop (?i2 + length t) data = SPACE # rest" .
  have "parse_loop data len 0 St_method hdrs False req
        = parse_loop data len ?i2 St_url hdrs False ?r1"
    using data _ m req(1)
  proof (rule reach_url)
    from len show "length m + 1 \<le> len" by simp
  qed
  also have "\<dots> = parse_loop data len (?i2 + length t) St_url hdrs False (?r1\<lparr>url := url ?r1 @ t\<rparr>)"
    using d2 _ t(3,4,5)
  proof (rule url_run)
    from len show "?i2 + length t \<le> len" by simp
    from t req show "length (url ?r1) + length t \<le> max_url_len" by simp
  qed
  also have "\<dots> = parse_loop data len (?i2 + length t) St_url hdrs False ?r2"
    by (simp add: req)
  also have "\<dots> = parse_loop data len (Suc (?i2 + length t)) St_version hdrs False ?r2"
    using d3
  proof (rule url_space)
    from len show "?i2 + length t < len" by simp
    from t show "url ?r2 \<noteq> []" by simp
  qed
  also have "Suc (?i2 + length t) = length m + length t + 2" by simp
  finally show ?thesis .
qed

lemma reach_version_end:
  assumes data: "data = m @ SPACE # t @ SPACE # v @ rest"
    and len: "length m + length t + length v + 2 \<le> len"
    and m: "m \<noteq> []" "length m \<le> max_method_len" "SPACE \<notin> set m" "CR \<notin> set m" "LF \<notin> set m"
    and t: "t \<noteq> []" "length t \<le> max_url_len" "SPACE \<notin> set t" "CR \<notin> set t" "LF \<notin> set t"
    and v: "length v \<le> max_version_len" "CR \<notin> set v"
    and req: "method req = []" "url req = []" "version req = []"
  shows "parse_loop data len 0 St_method hdrs False req
         = parse_loop data len (length m + length t + length v + 2) St_version hdrs False
             (req\<lparr>method := m, url := t, version := v\<rparr>)"
proof -
  let ?r2 = "req\<lparr>method := m, url := t\<rparr>"
  let ?r3 = "req\<lparr>method := m, url := t, version := v\<rparr>"
  let ?i4 = "length m + length t + 2"
  have "data = (m @ SPACE # t @ [SPACE]) @ (v @ rest)" by (simp add: data)
  moreover have "length (m @ SPACE # t @ [SPACE]) = ?i4" by simp
  ultimately have d4: "drop ?i4 data = v @ rest"
    by (metis append_eq_conv_conj)
  have "parse_loop data len 0 St_method hdrs False req
        = parse_loop data len ?i4 St_version hdrs False ?r2"
    using _ _ m t req(1,2)
  proof (rule reach_version)
    show "data = m @ SPACE # t @ SPACE # (v @ rest)" by (simp add: data)
    from len show "?i4 \<le> len" by simp
  qed
  also have "\<dots> = parse_loop data len (?i4 + length v) St_version hdrs False
      (?r2\<lparr>version := version ?r2 @ v\<rparr>)"
    using d4 _ v(2)
  proof (rule version_run)
    from len show "?i4 + length v \<le> len" by simp
    from v req show "length (version ?r2) + length v \<le> max_version_len" by simp
  qed
  also have "\<dots> = parse_loop data len (?i4 + length v) St_version hdrs False ?r3"
    by (simp add: req)
  also have "?i4 + length v = length m + length t + length v + 2" by simp
  finally show ?thesis .
qed

lemma request_line:
  assumes data: "data = m @ SPACE # t @ SPACE # v @ CR # LF # rest"
    and len: "length m + length t + length v + 4 \<le> len"
    and m: "m \<noteq> []" "length m \<le> max_method_len" "SPACE \<notin> set m" "CR \<notin> set m" "LF \<notin> set m"
    and t: "t \<noteq> []" "length t \<le> max_url_len" "SPACE \<notin> set t" "CR \<notin> set t" "LF \<notin> set t"
    and v: "v \<noteq> []" "length v \<le> max_version_len" "CR \<notin> set v"
    and req: "method req = []" "url req = []" "version req = []"
  shows "parse_loop data len 0 St_method hdrs False req
         = parse_loop data len (length m + length t + length v + 4) St_headers hdrs False
             (req\<lparr>method := m, url := t, version := v\<rparr>)"
proof -
  let ?r3 = "req\<lparr>method := m, url := t, version := v\<rparr>"
  let ?i5 = "length m + length t + length v + 2"
  have "data = (m @ SPACE # t @ SPACE # v) @ (CR # LF # rest)" by (simp add: data)
  moreover have "length (m @ SPACE # t @ SPACE # v) = ?i5" by simp
  ultimately have d5: "drop ?i5 data = CR # LF # rest"
    by (metis append_eq_conv_conj)
  have "parse_loop data len 0 St_method hdrs False req
        = parse_loop data len ?i5 St_version hdrs False ?r3"
    using data _ m t v(2,3) req
  proof (rule reach_version_end)
    from len show "?i5 \<le> len" by simp
  qed
  also have "\<dots> = parse_loop data len (?i5 + 2) St_headers hdrs False ?r3"
    using d5
  proof (rule version_crlf)
    from len show "?i5 + 1 < len" by simp
    from v show "version ?r3 \<noteq> []" by simp
  qed
  also have "?i5 + 2 = length m + length t + length v + 4" by simp
  finally show ?thesis .
qed

lemma concat_lines_join:
  "lines \<noteq> [] \<Longrightarrow> concat (map (\<lambda>l. l @ CRLF) lines) = join_lines lines @ CRLF"
  by (induction lines rule: join_lines.induct) simp_all

lemma length_CRLF: "length CRLF = 2"
  by (simp add: CRLF_def)

lemma CRLF_append: "CRLF @ xs = CR # LF # xs"
  by (simp add: CRLF_def)

lemma length_request_text:
  "lines \<noteq> [] \<Longrightarrow> length (request_text m t v lines)
     = length m + length t + length v + 4 + length (join_lines lines) + 4"
  by (simp add: request_text_def concat_lines_join length_CRLF)

lemma parse_loop_request_text:
  assumes m: "m \<noteq> []" "length m \<le> max_method_len" "SPACE \<notin> set m" "CR \<notin> set m" "LF \<notin> set m"
    and t: "t \<noteq> []" "length t \<le> max_url_len" "SPACE \<notin> set t" "CR \<notin> set t" "LF \<notin> set t"
    and v: "v \<noteq> []" "length v \<le> max_version_len" "CR \<notin> set v"
    and lines: "lines \<noteq> []" "\<forall>l \<in> set lines. l \<noteq> [] \<and> CR \<notin> set l \<and> LF \<notin> set l"
    and len: "length (request_text m t v lines) \<le> len"
    and req: "method req = []" "url req = []" "version req = []"
  shows "parse_loop (request_text m t v lines @ body) len 0 St_method [] False req
         = Inr (Finished (join_lines lines) (req\<lparr>method := m, url := t, version := v\<rparr>))"
proof -
  let ?data = "request_text m t v lines @ body"
  let ?rest = "join_lines lines @ CRLF @ CRLF @ body"
  let ?i = "length m + length t + length v + 4"
  have data: "?data = m @ SPACE # t @ SPACE # v @ CR # LF # ?rest"
    using lines(1) by (simp add: request_text_def concat_lines_join CRLF_append)
  from len lines(1) have len': "?i + length (join_lines lines) + 4 \<le> len"
    by (simp add: length_request_text)
  then have len'': "?i \<le> len" by simp
  have "?data = (m @ SPACE # t @ SPACE # v @ [CR, LF]) @ ?rest"
    by (simp add: data)
  moreover have "length (m @ SPACE # t @ SPACE # v @ [CR, LF]) = ?i" by simp
  ultimately have "drop ?i ?data = ?rest"
    by (metis append_eq_conv_conj)
  with lines have "parse_loop ?data len ?i St_headers [] False (req\<lparr>method := m, url := t, version := v\<rparr>)
        = Inr (Finished ([] @ join_lines lines) (req\<lparr>method := m, url := t, version := v\<rparr>))"
    using len' by (rule headers_block)
  with request_line [OF data len'' m t v req, of "[]"] show ?thesis by simp
qed

lemma header_line_chars:
  "header_line kv \<noteq> []"
  "CR \<notin> set (header_line kv) \<longleftrightarrow> CR \<notin> set (fst kv) \<and> CR \<notin> set (snd kv)"
  "LF \<notin> set (header_line kv) \<longleftrightarrow> LF \<notin> set (fst kv) \<and> LF \<notin> set (snd kv)"
  by (auto simp: header_line_def CR_def LF_def)

lemma split_headers_lines:
  assumes "lines \<noteq> []" "\<forall>l \<in> set lines. CR \<notin> set l"
  shows "split_headers (join_lines lines) req = Some (split_headers_loop lines req)"
  by (simp add: split_headers_def string_split_lines [OF assms])

lemma parse_request_text_wellformed:
  assumes m: "m \<noteq> []" "length m \<le> max_method_len" "SPACE \<notin> set m" "CR \<notin> set m" "LF \<notin> set m"
    and t: "t \<noteq> []" "length t \<le> max_url_len" "SPACE \<notin> set t" "CR \<notin> set t" "LF \<notin> set t"
    and v: "v \<noteq> []" "length v \<le> max_version_len" "CR \<notin> set v"
    and kvs: "kvs \<noteq> []"
      "\<forall>kv \<in> set kvs. CR \<notin> set (fst kv) \<and> LF \<notin> set (fst kv) \<and>
         CR \<notin> set (snd kv) \<and> LF \<notin> set (snd kv) \<and> \<not> sublist '': '' (fst kv)"
    and len: "length (request_text m t v (map header_line kvs)) \<le> len"
    and req: "method req = []" "url req = []" "version req = []"
  shows "parse (request_text m t v (map header_line kvs) @ body) len req
         = Some (Inr (success,
             req\<lparr>method := m, url := t, version := v, headers := map_of kvs ++ headers req\<rparr>))"
proof -
  let ?lines = "map header_line kvs"
  let ?req' = "req\<lparr>method := m, url := t, version := v\<rparr>"
  from kvs(1) have ne: "?lines \<noteq> []" by simp
  from kvs(2) have ok: "\<forall>l \<in> set ?lines. l \<noteq> [] \<and> CR \<notin> set l \<and> LF \<notin> set l"
    by (auto simp: header_line_chars)
  then have cr: "\<forall>l \<in> set ?lines. CR \<notin> set l" by blast
  have loop: "parse_loop (request_text m t v ?lines @ body) len 0 St_method [] False req
      = Inr (Finished (join_lines ?lines) ?req')"
    using m t v ne ok len req by (rule parse_loop_request_text)
  from kvs(2) have "\<forall>kv \<in> set kvs. \<not> sublist '': '' (fst kv)" by blast
  then have "split_headers_loop ?lines ?req'
      = Inr (True, ?req'\<lparr>headers := map_of kvs ++ headers ?req'\<rparr>)"
    by (rule split_headers_loop_wellformed)
  then have "split_headers (join_lines ?lines) ?req'
      = Some (Inr (True, ?req'\<lparr>headers := map_of kvs ++ headers ?req'\<rparr>))"
    by (simp add: split_headers_lines [OF ne cr])
  with loop show ?thesis by (simp add: parse_def)
qed

lemma parse_request_text_malformed:
  assumes m: "m \<noteq> []" "length m \<le> max_method_len" "SPACE \<notin> set m" "CR \<notin> set m" "LF \<notin> set m"
    and t: "t \<noteq> []" "length t \<le> max_url_len" "SPACE \<notin> set t" "CR \<notin> set t" "LF \<notin> set t"
    and v: "v \<noteq> []" "length v \<le> max_version_len" "CR \<notin> set v"
    and ok: "\<forall>l \<in> set lines. l \<noteq> [] \<and> CR \<notin> set l \<and> LF \<notin> set l"
    and bad: "l \<in> set lines" "\<not> sublist '': '' l"
    and len: "length (request_text m t v lines) \<le> len"
    and req: "method req = []" "url req = []" "version req = []"
  shows "\<exists>req'. parse (request_text m t v lines @ body) len req
           = Some (Inr (invalid_headers, req'))"
proof -
  let ?req' = "req\<lparr>method := m, url := t, version := v\<rparr>"
  from bad(1) have ne: "lines \<noteq> []" by auto
  from ok have cr: "\<forall>l \<in> set lines. CR \<notin> set l" by blast
  have loop: "parse_loop (request_text m t v lines @ body) len 0 St_method [] False req
      = Inr (Finished (join_lines lines) ?req')"
    using m t v ne ok len req by (rule parse_loop_request_text)
  from split_headers_loop_malformed [OF bad] obtain req''
    where "split_headers_loop lines ?req' = Inr (False, req'')" by blast
  then have "split_headers (join_lines lines) ?req' = Some (Inr (False, req''))"
    by (simp add: split_headers_lines [OF ne cr])
  with loop show ?thesis by (simp add: parse_def)
qed

lemma Request_default_fields:
  "method Request_default = []" "url Request_default = []" "version Request_default = []"
  "headers Request_default = Map.empty"
  by (simp_all add: Request_default_def)

section \<open>The three length limits\<close>

lemma parse_step_state:
  assumes "parse_step data len i state hdrs req = Next i' state' hdrs' stop' req'"
  shows "(state = St_method \<and> (state' = St_method \<or> state' = St_url)) \<or>
         (state = St_url \<and> (state' = St_url \<or> state' = St_version)) \<or>
         (state = St_version \<and> (state' = St_version \<or> state' = St_headers)) \<or>
         (state = St_headers \<and> state' = St_headers)"
proof (cases "at data i")
  case (Inl f)
  with assms show ?thesis by (simp add: parse_step_fault)
next
  case (Inr c)
  with assms show ?thesis
    by (cases state) (auto simp: parse_step_at split: if_splits sum.splits bool.splits)
qed

lemma parse_step_too_long:
  assumes "parse_step data len i state hdrs req = Ret r req'"
  shows "(r = method_too_long \<longrightarrow> state = St_method) \<and>
         (r = url_too_long \<longrightarrow> state = St_url) \<and>
         (r = version_too_long \<longrightarrow> state = St_version)"
proof (cases "at data i")
  case (Inl f)
  with assms show ?thesis by (simp add: parse_step_fault)
next
  case (Inr c)
  with assms show ?thesis
    by (cases state) (auto simp: parse_step_at split: if_splits sum.splits bool.splits)
qed

lemma past_method_no_method_too_long:
  assumes "state \<noteq> St_method"
  shows "parse_loop data len i state hdrs stop req \<noteq> Inr (Returned method_too_long req')"
  using assms
proof (rule parse_loop_rule [where I = "\<lambda>_ st _ _ _. st \<noteq> St_method"
      and Q = "\<lambda>x. x \<noteq> Inr (Returned method_too_long req')"])
qed (auto dest: parse_step_state parse_step_too_long)

lemma past_url_no_url_too_long:
  assumes "state = St_version \<or> state = St_headers"
  shows "parse_loop data len i state hdrs stop req \<noteq> Inr (Returned url_too_long req')"
  using assms
proof (rule parse_loop_rule [where I = "\<lambda>_ st _ _ _. st = St_version \<or> st = St_headers"
      and Q = "\<lambda>x. x \<noteq> Inr (Returned url_too_long req')"])
qed (auto dest: parse_step_state parse_step_too_long)

lemma past_version_no_version_too_long:
  assumes "state = St_headers"
  shows "parse_loop data len i state hdrs stop req \<noteq> Inr (Returned version_too_long req')"
  using assms
proof (rule parse_loop_rule [where I = "\<lambda>_ st _ _ _. st = St_headers"
      and Q = "\<lambda>x. x \<noteq> Inr (Returned version_too_long req')"])
qed (auto dest: parse_step_state parse_step_too_long)

lemma parse_returned:
  "parse_loop data len 0 St_method [] False req = Inr (Returned r req') \<Longrightarrow>
   parse data len req = Some (Inr (r, req'))"
  by (simp add: parse_def)

lemma parse_error_from_loop:
  assumes "parse data len req = Some (Inr (r, req'))" "r \<noteq> success" "r \<noteq> invalid_headers"
  shows "parse_loop data len 0 St_method [] False req = Inr (Returned r req')"
  using assms
  by (auto simp: parse_def split: sum.splits loop_exit.splits option.splits if_splits)


lemma reach_url_end:
  assumes data: "data = m @ SPACE # t @ rest"
    and len: "length m + length t + 1 \<le> len"
    and m: "m \<noteq> []" "length m \<le> max_method_len" "SPACE \<notin> set m" "CR \<notin> set m" "LF \<notin> set m"
    and t: "length t \<le> max_url_len" "SPACE \<notin> set t" "CR \<notin> set t" "LF \<notin> set t"
    and req: "method req = []" "url req = []"
  shows "parse_loop data len 0 St_method hdrs False req
         = parse_loop data len (length m + length t + 1) St_url hdrs False
             (req\<lparr>method := m, url := t\<rparr>)"
proof -
  let ?r1 = "req\<lparr>method := m\<rparr>"
  let ?i2 = "length m + 1"
  have "data = (m @ [SPACE]) @ (t @ rest)" by (simp add: data)
  moreover have "length (m @ [SPACE]) = ?i2" by simp
  ultimately have d2: "drop ?i2 data = t @ rest"
    by (metis append_eq_conv_conj)
  have "parse_loop data len 0 St_method hdrs False req
        = parse_loop data len ?i2 St_url hdrs False ?r1"
    using _ _ m req(1)
  proof (rule reach_url)
    show "data = m @ SPACE # (t @ rest)" by (simp add: data)
    from len show "length m + 1 \<le> len" by simp
  qed
  also have "\<dots> = parse_loop data len (?i2 + length t) St_url hdrs False (?r1\<lparr>url := url ?r1 @ t\<rparr>)"
    using d2 _ t(2,3,4)
  proof (rule url_run)
    from len show "?i2 + length t \<le> len" by simp
    from t req show "length (url ?r1) + length t \<le> max_url_len" by simp
  qed
  also have "\<dots> = parse_loop data len (?i2 + length t) St_url hdrs False (req\<lparr>method := m, url := t\<rparr>)"
    by (simp add: req)
  also have "?i2 + length t = length m + length t + 1" by simp
  finally show ?thesis .
qed

lemma method_limit_exceeded:
  assumes M: "length M = max_method_len" "SPACE \<notin> set M" "CR \<notin> set M" "LF \<notin> set M"
    and c: "c \<noteq> SPACE" "c \<noteq> CR" "c \<noteq> LF"
    and len: "length M < len"
    and req: "method req = []"
  shows "parse (M @ c # rest) len req = Some (Inr (method_too_long, req\<lparr>method := M\<rparr>))"
proof -
  let ?data = "M @ c # rest"
  have d0: "drop 0 ?data = M @ (c # rest)" by simp
  have "parse_loop ?data len 0 St_method [] False req
        = parse_loop ?data len (0 + length M) St_method [] False (req\<lparr>method := method req @ M\<rparr>)"
    using d0 _ M(2,3,4)
  proof (rule method_run)
    from len show "0 + length M \<le> len" by simp
    from M req show "length (method req) + length M \<le> max_method_len" by simp
  qed
  also have "\<dots> = parse_loop ?data len (length M) St_method [] False (req\<lparr>method := M\<rparr>)"
    by (simp add: req)
  also have "\<dots> = Inr (Returned method_too_long (req\<lparr>method := M\<rparr>))"
  proof (rule method_overflow [OF _ len c])
    show "drop (length M) ?data = c # rest" by simp
    from M show "length (method (req\<lparr>method := M\<rparr>)) = max_method_len" by simp
  qed
  finally show ?thesis by (rule parse_returned)
qed

lemma url_limit_exceeded:
  assumes m: "m \<noteq> []" "length m \<le> max_method_len" "SPACE \<notin> set m" "CR \<notin> set m" "LF \<notin> set m"
    and T: "length T = max_url_len" "SPACE \<notin> set T" "CR \<notin> set T" "LF \<notin> set T"
    and c: "c \<noteq> SPACE" "c \<noteq> CR" "c \<noteq> LF"
    and len: "length m + length T + 1 < len"
    and req: "method req = []" "url req = []"
  shows "parse (m @ SPACE # T @ c # rest) len req
         = Some (Inr (url_too_long, req\<lparr>method := m, url := T\<rparr>))"
proof -
  let ?data = "m @ SPACE # T @ c # rest"
  let ?i = "length m + length T + 1"
  let ?r = "req\<lparr>method := m, url := T\<rparr>"
  have "?data = (m @ SPACE # T) @ (c # rest)" by simp
  moreover have "length (m @ SPACE # T) = ?i" by simp
  ultimately have d: "drop ?i ?data = c # rest" by (metis append_eq_conv_conj)
  have "parse_loop ?data len 0 St_method [] False req = parse_loop ?data len ?i St_url [] False ?r"
    using _ _ m _ T(2,3,4) req
  proof (rule reach_url_end)
    show "?data = m @ SPACE # T @ (c # rest)" by simp
    from len show "?i \<le> len" by simp
    from T show "length T \<le> max_url_len" by simp
  qed
  also have "\<dots> = Inr (Returned url_too_long ?r)"
  proof (rule url_overflow [OF d len c])
    from T show "length (url ?r) = max_url_len" by simp
  qed
  finally show ?thesis by (rule parse_returned)
qed

lemma version_limit_exceeded:
  assumes m: "m \<noteq> []" "length m \<le> max_method_len" "SPACE \<notin> set m" "CR \<notin> set m" "LF \<notin> set m"
    and u: "u \<noteq> []" "length u \<le> max_url_len" "SPACE \<notin> set u" "CR \<notin> set u" "LF \<notin> set u"
    and V: "length V = max_version_len" "CR \<notin> set V"
    and c: "c \<noteq> CR"
    and len: "length m + length u + length V + 2 < len"
    and req: "method req = []" "url req = []" "version req = []"
  shows "parse (m @ SPACE # u @ SPACE # V @ c # rest) len req
         = Some (Inr (version_too_long, req\<lparr>method := m, url := u, version := V\<rparr>))"
proof -
  let ?data = "m @ SPACE # u @ SPACE # V @ c # rest"
  let ?i = "length m + length u + length V + 2"
  let ?r = "req\<lparr>method := m, url := u, version := V\<rparr>"
  have "?data = (m @ SPACE # u @ SPACE # V) @ (c # rest)" by simp
  moreover have "length (m @ SPACE # u @ SPACE # V) = ?i" by simp
  ultimately have d: "drop ?i ?data = c # rest" by (metis append_eq_conv_conj)
  have "parse_loop ?data len 0 St_method [] False req
        = parse_loop ?data len ?i St_version [] False ?r"
    using _ _ m u _ V(2) req
  proof (rule reach_version_end)
    show "?data = m @ SPACE # u @ SPACE # V @ (c # rest)" by simp
    from len show "?i \<le> len" by simp
    from V show "length V \<le> max_version_len" by simp
  qed
  also have "\<dots> = Inr (Returned version_too_long ?r)"
  proof (rule version_overflow [OF d len c])
    from V show "length (version ?r) = max_version_len" by simp
  qed
  finally show ?thesis by (rule parse_returned)
qed

lemma method_limit_passed:
  assumes M: "M \<noteq> []" "length M \<le> max_method_len" "SPACE \<notin> set M" "CR \<notin> set M" "LF \<notin> set M"
    and len: "length M < len"
    and req: "method req = []"
  shows "parse_loop (M @ SPACE # rest) len 0 St_method [] False req
           = parse_loop (M @ SPACE # rest) len (length M + 1) St_url [] False (req\<lparr>method := M\<rparr>)"
    and "parse (M @ SPACE # rest) len req \<noteq> Some (Inr (method_too_long, q))"
proof -
  show eq: "parse_loop (M @ SPACE # rest) len 0 St_method [] False req
           = parse_loop (M @ SPACE # rest) len (length M + 1) St_url [] False (req\<lparr>method := M\<rparr>)"
    using refl _ M req
  proof (rule reach_url)
    from len show "length M + 1 \<le> len" by simp
  qed
  show "parse (M @ SPACE # rest) len req \<noteq> Some (Inr (method_too_long, q))"
  proof
    assume "parse (M @ SPACE # rest) len req = Some (Inr (method_too_long, q))"
    then have "parse_loop (M @ SPACE # rest) len 0 St_method [] False req
        = Inr (Returned method_too_long q)"
      by (rule parse_error_from_loop) simp_all
    then show False
      unfolding eq by (rule past_method_no_method_too_long [THEN notE, rotated]) simp
  qed
qed

lemma url_limit_passed:
  assumes m: "m \<noteq> []" "length m \<le> max_method_len" "SPACE \<notin> set m" "CR \<notin> set m" "LF \<notin> set m"
    and T: "T \<noteq> []" "length T \<le> max_url_len" "SPACE \<notin> set T" "CR \<notin> set T" "LF \<notin> set T"
    and len: "length m + length T + 2 \<le> len"
    and req: "method req = []" "url req = []"
  shows "parse_loop (m @ SPACE # T @ SPACE # rest) len 0 St_method [] False req
           = parse_loop (m @ SPACE # T @ SPACE # rest) len (length m + length T + 2) St_version []
               False (req\<lparr>method := m, url := T\<rparr>)"
    and "parse (m @ SPACE # T @ SPACE # rest) len req \<noteq> Some (Inr (url_too_long, q))"
proof -
  show eq: "parse_loop (m @ SPACE # T @ SPACE # rest) len 0 St_method [] False req
           = parse_loop (m @ SPACE # T @ SPACE # rest) len (length m + length T + 2) St_version []
               False (req\<lparr>method := m, url := T\<rparr>)"
    using refl len m T req by (rule reach_version)
  show "parse (m @ SPACE # T @ SPACE # rest) len req \<noteq> Some (Inr (url_too_long, q))"
  proof
    assume "parse (m @ SPACE # T @ SPACE # rest) len req = Some (Inr (url_too_long, q))"
    then have "parse_loop (m @ SPACE # T @ SPACE # rest) len 0 St_method [] False req
        = Inr (Returned url_too_long q)"
      by (rule parse_error_from_loop) simp_all
    then show False
      unfolding eq by (rule past_url_no_url_too_long [THEN notE, rotated]) simp
  qed
qed

lemma version_limit_passed:
  assumes m: "m \<noteq> []" "length m \<le> max_method_len" "SPACE \<notin> set m" "CR \<notin> set m" "LF \<notin> set m"
    and u: "u \<noteq> []" "length u \<le> max_url_len" "SPACE \<notin> set u" "CR \<notin> set u" "LF \<notin> set u"
    and V: "V \<noteq> []" "length V \<le> max_version_len" "CR \<notin> set V"
    and len: "length m + length u + length V + 4 \<le> len"
    and req: "method req = []" "url req = []" "version req = []"
  shows "parse_loop (m @ SPACE # u @ SPACE # V @ CR # LF # rest) len 0 St_method [] False req
           = parse_loop (m @ SPACE # u @ SPACE # V @ CR # LF # rest) len
               (length m + length u + length V + 4) St_headers []
               False (req\<lparr>method := m, url := u, version := V\<rparr>)"
    and "parse (m @ SPACE # u @ SPACE # V @ CR # LF # rest) len req
           \<noteq> Some (Inr (version_too_long, q))"
proof -
  let ?data = "m @ SPACE # u @ SPACE # V @ CR # LF # rest"
  show eq: "parse_loop ?data len 0 St_method [] False req
           = parse_loop ?data len (length m + length u + length V + 4) St_headers []
               False (req\<lparr>method := m, url := u, version := V\<rparr>)"
    using refl len m u V req by (rule request_line)
  show "parse ?data len req \<noteq> Some (Inr (version_too_long, q))"
  proof
    assume "parse ?data len req = Some (Inr (version_too_long, q))"
    then have "parse_loop ?data len 0 St_method [] False req = Inr (Returned version_too_long q)"
      by (rule parse_error_from_loop) simp_all
    then show False
      unfolding eq by (rule past_version_no_version_too_long [THEN notE, rotated]) simp
  qed
qed

section \<open>What the record holds when the loop is left\<close>

lemma split_headers_loop_fields:
  "split_headers_loop tokens req = Inr (ok, req') \<Longrightarrow>
   method req' = method req \<and> url req' = url req \<and> version req' = version req \<and>
   headers req \<subseteq>\<^sub>m headers req'"
proof (induction tokens arbitrary: req)
  case Nil
  then show ?case by simp
next
  case (Cons token tokens)
  show ?case
  proof (cases "find_str token '': '' 0")
    case None
    with Cons.prems show ?thesis by simp
  next
    case (Some iter)
    from find_str_SomeD [OF Some] have le: "iter + 2 \<le> length token" by simp
    let ?req1 = "req\<lparr>headers := emplace (headers req) (take iter token) (drop (iter + 2) token)\<rparr>"
    from Cons.prems Some le have "split_headers_loop tokens ?req1 = Inr (ok, req')"
      by (simp add: substr_def substr_from_def)
    from Cons.IH [OF this]
    have "method req' = method req" "url req' = url req" "version req' = version req"
      and "headers ?req1 \<subseteq>\<^sub>m headers req'"
      by simp_all
    moreover have "headers req \<subseteq>\<^sub>m headers ?req1"
      by (auto simp: map_le_def emplace_def split: option.splits)
    ultimately show ?thesis by (blast intro: map_le_trans)
  qed
qed

lemma split_headers_empty: "split_headers [] req = Some (Inr (False, req))"
proof -
  have "find_str [] CRLF 0 = None"
    by (simp add: find_str.simps CRLF_def)
  then have "string_split [] CRLF = Some (Inr [[]])"
    by (simp add: string_split_def string_split_loop.simps substr_from_def)
  moreover have "find_str [] '': '' 0 = None"
    by (simp add: find_str.simps)
  ultimately show ?thesis
    by (simp add: split_headers_def)
qed

lemma split_headers_fields:
  assumes "split_headers hdrs req = Some (Inr (ok, req'))"
  shows "method req' = method req \<and> url req' = url req \<and> version req' = version req \<and>
         headers req \<subseteq>\<^sub>m headers req'"
proof -
  from assms obtain tokens where "split_headers_loop tokens req = Inr (ok, req')"
    by (auto simp: split_headers_def split: option.splits sum.splits)
  then show ?thesis by (rule split_headers_loop_fields)
qed

lemma parse_step_invariant:
  assumes "parse_step data len i state hdrs req = Next i' state' hdrs' stop' req'"
    and "within_limits req" "tokens_seen state hdrs req"
  shows "within_limits req' \<and> tokens_seen state' hdrs' req'"
proof (cases "at data i")
  case (Inl f)
  with assms show ?thesis by (simp add: parse_step_fault)
next
  case (Inr c)
  show ?thesis
  proof (cases state)
    case St_method
    with assms Inr show ?thesis
      by (auto simp: parse_step_St_method within_limits_def tokens_seen_def split: if_splits)
  next
    case St_url
    with assms Inr show ?thesis
      by (auto simp: parse_step_St_url within_limits_def tokens_seen_def split: if_splits)
  next
    case St_version
    with assms Inr show ?thesis
      by (auto simp: parse_step_St_version within_limits_def tokens_seen_def
          split: if_splits sum.splits)
  next
    case St_headers
    with assms Inr show ?thesis
      by (auto simp: parse_step_St_headers within_limits_def tokens_seen_def
          split: if_splits sum.splits bool.splits)
  qed
qed

lemma parse_loop_finished_invariant:
  assumes "parse_loop data len i state hdrs stop req = Inr (Finished hdrs' req')"
    and "within_limits req" "tokens_seen state hdrs req"
  shows "within_limits req' \<and>
         (hdrs' \<noteq> [] \<longrightarrow> method req' \<noteq> [] \<and> url req' \<noteq> [] \<and> version req' \<noteq> [])"
proof -
  have "\<forall>h q. parse_loop data len i state hdrs stop req = Inr (Finished h q) \<longrightarrow>
          within_limits q \<and> (h \<noteq> [] \<longrightarrow> method q \<noteq> [] \<and> url q \<noteq> [] \<and> version q \<noteq> [])"
  proof (rule parse_loop_rule [where I = "\<lambda>_ st h _ q. within_limits q \<and> tokens_seen st h q"
        and Q = "\<lambda>x. \<forall>h q. x = Inr (Finished h q) \<longrightarrow>
          within_limits q \<and> (h \<noteq> [] \<longrightarrow> method q \<noteq> [] \<and> url q \<noteq> [] \<and> version q \<noteq> [])"])
    show "within_limits req \<and> tokens_seen state hdrs req" using assms by simp
  next
    fix i state hdrs req i' state' hdrs' stop' req'
    assume "within_limits req \<and> tokens_seen state hdrs req"
      and "parse_step data len i state hdrs req = Next i' state' hdrs' stop' req'"
    then show "within_limits req' \<and> tokens_seen state' hdrs' req'"
      using parse_step_invariant by blast
  next
    fix i state hdrs stop req
    assume "within_limits req \<and> tokens_seen state hdrs req"
    then show "\<forall>h q. Inr (Finished hdrs req) = Inr (Finished h q) \<longrightarrow>
          within_limits q \<and> (h \<noteq> [] \<longrightarrow> method q \<noteq> [] \<and> url q \<noteq> [] \<and> version q \<noteq> [])"
      by (cases state) (auto simp: tokens_seen_def)
  qed simp_all
  with assms(1) show ?thesis by blast
qed

lemma parse_step_not_success:
  "parse_step data len i state hdrs req \<noteq> Ret success req'"
proof (cases "at data i")
  case (Inl f)
  then show ?thesis by (simp add: parse_step_fault)
next
  case (Inr c)
  then show ?thesis
    by (cases state) (auto simp: parse_step_at split: sum.splits bool.splits)
qed

lemma parse_loop_not_success:
  "parse_loop data len i state hdrs stop req \<noteq> Inr (Returned success req')"
proof (rule parse_loop_rule [where I = "\<lambda>_ _ _ _ _. True"
      and Q = "\<lambda>x. x \<noteq> Inr (Returned success req')"])
qed (auto simp: parse_step_not_success)

section \<open>What every return leaves in the record\<close>

lemma parse_step_Ret_same:
  assumes "parse_step data len i state hdrs req = Ret r req'"
  shows "req' = req"
proof (cases "at data i")
  case (Inl f)
  with assms show ?thesis by (simp add: parse_step_fault)
next
  case (Inr c)
  with assms show ?thesis
    by (cases state) (auto simp: parse_step_at split: if_splits sum.splits bool.splits)
qed

lemma parse_step_Next_fields:
  assumes "parse_step data len i state hdrs req = Next i' state' hdrs' stop' req'"
  shows "prefix (method req) (method req') \<and> prefix (url req) (url req') \<and>
         prefix (version req) (version req') \<and> headers req' = headers req \<and>
         (state \<noteq> St_method \<longrightarrow> method req' = method req)"
proof (cases "at data i")
  case (Inl f)
  with assms show ?thesis by (simp add: parse_step_fault)
next
  case (Inr c)
  with assms show ?thesis
    by (cases state) (auto simp: parse_step_at split: if_splits sum.splits bool.splits)
qed

lemma parse_loop_record_extends:
  assumes "parse_loop data len i state hdrs stop req = Inr ex"
  shows "prefix (method req) (method (exit_record ex)) \<and>
         prefix (url req) (url (exit_record ex)) \<and>
         prefix (version req) (version (exit_record ex)) \<and>
         headers (exit_record ex) = headers req"
proof -
  let ?ext = "\<lambda>q. prefix (method req) (method q) \<and> prefix (url req) (url q) \<and>
      prefix (version req) (version q) \<and> headers q = headers req"
  have "\<forall>ex. parse_loop data len i state hdrs stop req = Inr ex \<longrightarrow> ?ext (exit_record ex)"
  proof (rule parse_loop_rule [where I = "\<lambda>_ _ _ _ q. ?ext q"
        and Q = "\<lambda>x. \<forall>ex. x = Inr ex \<longrightarrow> ?ext (exit_record ex)"])
    show "?ext req" by simp
  next
    fix i state hdrs q i' state' hdrs' stop' q'
    assume "?ext q" and "parse_step data len i state hdrs q = Next i' state' hdrs' stop' q'"
    then show "?ext q'"
      using parse_step_Next_fields prefix_order.trans by metis
  next
    fix i state hdrs q r q'
    assume "?ext q" and "parse_step data len i state hdrs q = Ret r q'"
    then show "\<forall>ex. Inr (Returned r q') = Inr ex \<longrightarrow> ?ext (exit_record ex)"
      by (auto dest!: parse_step_Ret_same)
  qed auto
  with assms show ?thesis by blast
qed

lemma method_bytes_set:
  "\<forall>c \<in> set t. method_byte c \<Longrightarrow> SPACE \<notin> set t \<and> CR \<notin> set t \<and> LF \<notin> set t"
  unfolding method_byte_def by blast

lemma version_bytes_set: "\<forall>c \<in> set t. version_byte c \<Longrightarrow> CR \<notin> set t"
  unfolding version_byte_def by blast

lemma takeWhile_bytes: "\<forall>c \<in> set (take n (takeWhile P xs)). P c"
  by (blast dest: in_set_takeD set_takeWhileD)

lemma dropWhile_Cons_not: "dropWhile P xs = c # r \<Longrightarrow> \<not> P c"
  using hd_dropWhile [of P xs] by auto

lemma length_drop_data: "drop i data = A \<Longrightarrow> i \<le> length data \<Longrightarrow> i + length A = length data"
  by auto

text \<open>The returns of the method and url states that are not a limit.\<close>

lemma method_empty_space:
  assumes "drop i data = SPACE # rest" "i < len" "method req = []"
  shows "parse_loop data len i St_method hdrs False req = Inr (Returned invalid_method req)"
proof -
  have "at data i = Inr SPACE" using assms(1) by (rule at_drop_Cons)
  with assms(3) have "parse_step data len i St_method hdrs req = Ret invalid_method req"
    by (simp add: parse_step_St_method)
  with assms(2) show ?thesis by (rule parse_loop_Ret)
qed

lemma method_line_end:
  assumes "drop i data = c # rest" "i < len" "c = CR \<or> c = LF"
  shows "parse_loop data len i St_method hdrs False req = Inr (Returned invalid_format req)"
proof -
  have "at data i = Inr c" using assms(1) by (rule at_drop_Cons)
  with assms(3) have "parse_step data len i St_method hdrs req = Ret invalid_format req"
    by (auto simp: parse_step_St_method)
  with assms(2) show ?thesis by (rule parse_loop_Ret)
qed

lemma url_empty_space:
  assumes "drop i data = SPACE # rest" "i < len" "url req = []"
  shows "parse_loop data len i St_url hdrs False req = Inr (Returned invalid_url req)"
proof -
  have "at data i = Inr SPACE" using assms(1) by (rule at_drop_Cons)
  with assms(3) have "parse_step data len i St_url hdrs req = Ret invalid_url req"
    by (simp add: parse_step_St_url)
  with assms(2) show ?thesis by (rule parse_loop_Ret)
qed

lemma url_line_end:
  assumes "drop i data = c # rest" "i < len" "c = CR \<or> c = LF"
  shows "parse_loop data len i St_url hdrs False req = Inr (Returned invalid_format req)"
proof -
  have "at data i = Inr c" using assms(1) by (rule at_drop_Cons)
  with assms(3) have "parse_step data len i St_url hdrs req = Ret invalid_format req"
    by (auto simp: parse_step_St_url)
  with assms(2) show ?thesis by (rule parse_loop_Ret)
qed

text \<open>
  The method state on a buffer whose method is not completed (it is empty, too long, or not
  followed by a space): the parse ends there, with the method bytes stored, at most 32.
\<close>

lemma method_state_exit:
  assumes dr: "drop i data = A" and i: "i \<le> length data" and q: "method q = []"
    and nd: "\<not> (takeWhile method_byte A \<noteq> [] \<and>
                length (takeWhile method_byte A) \<le> max_method_len \<and>
                take 1 (dropWhile method_byte A) = [SPACE])"
  shows "\<exists>ex. parse_loop data (length data) i St_method hdrs False q = Inr ex \<and>
           exit_record ex = q\<lparr>method := take max_method_len (takeWhile method_byte A)\<rparr>"
proof -
  define M where "M = takeWhile method_byte A"
  define R where "R = dropWhile method_byte A"
  define t where "t = take max_method_len M"
  let ?q1 = "q\<lparr>method := t\<rparr>"
  have A: "A = M @ R" by (simp add: M_def R_def)
  have Mt: "M = t @ drop max_method_len M" by (simp add: t_def)
  have bytes: "\<forall>c \<in> set t. method_byte c"
    unfolding t_def M_def by (rule takeWhile_bytes)
  note set_t = method_bytes_set [OF bytes]
  from length_drop_data [OF dr i] A have len: "i + length M + length R = length data"
    by simp
  have le_t: "length t \<le> length M" "length t \<le> max_method_len" by (simp_all add: t_def)
  have dr': "drop i data = t @ (drop max_method_len M @ R)"
    using dr A Mt by (metis append_assoc)
  have run: "parse_loop data (length data) i St_method hdrs False q
      = parse_loop data (length data) (i + length t) St_method hdrs False
          (q\<lparr>method := method q @ t\<rparr>)"
    using dr'
  proof (rule method_run)
    from len le_t show "i + length t \<le> length data" by auto
    from set_t show "SPACE \<notin> set t" "CR \<notin> set t" "LF \<notin> set t" by blast+
    from le_t show "length (method q) + length t \<le> max_method_len" by (simp add: q)
  qed
  then have run': "parse_loop data (length data) i St_method hdrs False q
      = parse_loop data (length data) (i + length t) St_method hdrs False ?q1"
    by (simp add: q)
  from drop_append_shift [OF dr']
  have after: "drop (i + length t) data = drop max_method_len M @ R" .
  have "\<exists>r. parse_loop data (length data) (i + length t) St_method hdrs False ?q1
          = Inr (Returned r ?q1) \<or>
        parse_loop data (length data) (i + length t) St_method hdrs False ?q1
          = Inr (Finished hdrs ?q1)"
  proof (cases "max_method_len < length M")
    case True
    then obtain c r where dM: "drop max_method_len M = c # r"
      by (cases "drop max_method_len M") auto
    then have "c \<in> set M" by (metis in_set_dropD list.set_intros(1))
    then have "method_byte c" unfolding M_def by (blast dest: set_takeWhileD)
    then have c: "c \<noteq> SPACE" "c \<noteq> CR" "c \<noteq> LF" by (simp_all add: method_byte_def)
    from True have lt: "length t = max_method_len" by (simp add: t_def)
    have "parse_loop data (length data) (i + length t) St_method hdrs False ?q1
        = Inr (Returned method_too_long ?q1)"
    proof (rule method_overflow [OF _ _ c])
      show "drop (i + length t) data = c # (r @ R)" using after dM by simp
      from len True lt show "i + length t < length data" by auto
      show "length (method ?q1) = max_method_len" using lt by simp
    qed
    then show ?thesis by blast
  next
    case False
    then have leM: "length M \<le> max_method_len" by simp
    then have tM: "t = M" by (simp add: t_def)
    from after leM have after': "drop (i + length t) data = R" by simp
    show ?thesis
    proof (cases R)
      case Nil
      with len tM have "length data \<le> i + length t" by auto
      then show ?thesis by (simp add: parse_loop_done)
    next
      case (Cons c R')
      with len tM have lt: "i + length t < length data" by auto
      from Cons have "\<not> method_byte c" unfolding R_def by (rule dropWhile_Cons_not)
      then consider "c = SPACE" | "c = CR \<or> c = LF" by (auto simp: method_byte_def)
      then show ?thesis
      proof cases
        case 1
        with nd leM Cons have "M = []" by (simp add: M_def R_def)
        with tM have "method ?q1 = []" by simp
        with after' Cons 1 lt
        have "parse_loop data (length data) (i + length t) St_method hdrs False ?q1
            = Inr (Returned invalid_method ?q1)"
          by (intro method_empty_space) simp_all
        then show ?thesis by blast
      next
        case 2
        with after' Cons lt
        have "parse_loop data (length data) (i + length t) St_method hdrs False ?q1
            = Inr (Returned invalid_format ?q1)"
          by (intro method_line_end) simp_all
        then show ?thesis by blast
      qed
    qed
  qed
  with run' show ?thesis unfolding t_def M_def by auto
qed

text \<open>The same for the url state and its limit of 1024 bytes.\<close>

lemma url_state_exit:
  assumes dr: "drop i data = A" and i: "i \<le> length data" and q: "url q = []"
    and nd: "\<not> (takeWhile method_byte A \<noteq> [] \<and>
                length (takeWhile method_byte A) \<le> max_url_len \<and>
                take 1 (dropWhile method_byte A) = [SPACE])"
  shows "\<exists>ex. parse_loop data (length data) i St_url hdrs False q = Inr ex \<and>
           exit_record ex = q\<lparr>url := take max_url_len (takeWhile method_byte A)\<rparr>"
proof -
  define M where "M = takeWhile method_byte A"
  define R where "R = dropWhile method_byte A"
  define t where "t = take max_url_len M"
  let ?q1 = "q\<lparr>url := t\<rparr>"
  have A: "A = M @ R" by (simp add: M_def R_def)
  have Mt: "M = t @ drop max_url_len M" by (simp add: t_def)
  have bytes: "\<forall>c \<in> set t. method_byte c"
    unfolding t_def M_def by (rule takeWhile_bytes)
  note set_t = method_bytes_set [OF bytes]
  from length_drop_data [OF dr i] A have len: "i + length M + length R = length data"
    by simp
  have le_t: "length t \<le> length M" "length t \<le> max_url_len" by (simp_all add: t_def)
  have dr': "drop i data = t @ (drop max_url_len M @ R)"
    using dr A Mt by (metis append_assoc)
  have run: "parse_loop data (length data) i St_url hdrs False q
      = parse_loop data (length data) (i + length t) St_url hdrs False
          (q\<lparr>url := url q @ t\<rparr>)"
    using dr'
  proof (rule url_run)
    from len le_t show "i + length t \<le> length data" by auto
    from set_t show "SPACE \<notin> set t" "CR \<notin> set t" "LF \<notin> set t" by blast+
    from le_t show "length (url q) + length t \<le> max_url_len" by (simp add: q)
  qed
  then have run': "parse_loop data (length data) i St_url hdrs False q
      = parse_loop data (length data) (i + length t) St_url hdrs False ?q1"
    by (simp add: q)
  from drop_append_shift [OF dr']
  have after: "drop (i + length t) data = drop max_url_len M @ R" .
  have "\<exists>r. parse_loop data (length data) (i + length t) St_url hdrs False ?q1
          = Inr (Returned r ?q1) \<or>
        parse_loop data (length data) (i + length t) St_url hdrs False ?q1
          = Inr (Finished hdrs ?q1)"
  proof (cases "max_url_len < length M")
    case True
    then obtain c r where dM: "drop max_url_len M = c # r"
      by (cases "drop max_url_len M") auto
    then have "c \<in> set M" by (metis in_set_dropD list.set_intros(1))
    then have "method_byte c" unfolding M_def by (blast dest: set_takeWhileD)
    then have c: "c \<noteq> SPACE" "c \<noteq> CR" "c \<noteq> LF" by (simp_all add: method_byte_def)
    from True have lt: "length t = max_url_len" by (simp add: t_def)
    have "parse_loop data (length data) (i + length t) St_url hdrs False ?q1
        = Inr (Returned url_too_long ?q1)"
    proof (rule url_overflow [OF _ _ c])
      show "drop (i + length t) data = c # (r @ R)" using after dM by simp
      from len True lt show "i + length t < length data" by auto
      show "length (url ?q1) = max_url_len" using lt by simp
    qed
    then show ?thesis by blast
  next
    case False
    then have leM: "length M \<le> max_url_len" by simp
    then have tM: "t = M" by (simp add: t_def)
    from after leM have after': "drop (i + length t) data = R" by simp
    show ?thesis
    proof (cases R)
      case Nil
      with len tM have "length data \<le> i + length t" by auto
      then show ?thesis by (simp add: parse_loop_done)
    next
      case (Cons c R')
      with len tM have lt: "i + length t < length data" by auto
      from Cons have "\<not> method_byte c" unfolding R_def by (rule dropWhile_Cons_not)
      then consider "c = SPACE" | "c = CR \<or> c = LF" by (auto simp: method_byte_def)
      then show ?thesis
      proof cases
        case 1
        with nd leM Cons have "M = []" by (simp add: M_def R_def)
        with tM have "url ?q1 = []" by simp
        with after' Cons 1 lt
        have "parse_loop data (length data) (i + length t) St_url hdrs False ?q1
            = Inr (Returned invalid_url ?q1)"
          by (intro url_empty_space) simp_all
        then show ?thesis by blast
      next
        case 2
        with after' Cons lt
        have "parse_loop data (length data) (i + length t) St_url hdrs False ?q1
            = Inr (Returned invalid_format ?q1)"
          by (intro url_line_end) simp_all
        then show ?thesis by blast
      qed
    qed
  qed
  with run' show ?thesis unfolding t_def M_def by auto
qed


text \<open>In the headers state the three tokens are not touched any more.\<close>

lemma parse_step_headers_Next:
  assumes "parse_step data len i St_headers hdrs req = Next i' state' hdrs' stop' req'"
  shows "state' = St_headers \<and> req' = req"
proof (cases "at data i")
  case (Inl f)
  with assms show ?thesis by (simp add: parse_step_fault)
next
  case (Inr c)
  with assms show ?thesis
    by (auto simp: parse_step_St_headers split: if_splits sum.splits bool.splits)
qed

lemma parse_loop_headers_kept:
  assumes "parse_loop data len i St_headers hdrs stop req = Inr ex"
  shows "method (exit_record ex) = method req \<and> url (exit_record ex) = url req \<and>
         version (exit_record ex) = version req"
proof -
  let ?same = "\<lambda>q. method q = method req \<and> url q = url req \<and> version q = version req"
  have "\<forall>ex. parse_loop data len i St_headers hdrs stop req = Inr ex \<longrightarrow> ?same (exit_record ex)"
  proof (rule parse_loop_rule [where I = "\<lambda>_ st _ _ q. st = St_headers \<and> ?same q"
        and Q = "\<lambda>x. \<forall>ex. x = Inr ex \<longrightarrow> ?same (exit_record ex)"])
    show "St_headers = St_headers \<and> ?same req" by simp
  next
    fix i state hdrs q i' state' hdrs' stop' q'
    assume inv: "state = St_headers \<and> ?same q"
      and st: "parse_step data len i state hdrs q = Next i' state' hdrs' stop' q'"
    from inv st have "state' = St_headers \<and> q' = q"
      using parse_step_headers_Next by blast
    with inv show "state' = St_headers \<and> ?same q'" by simp
  next
    fix i state hdrs q r q'
    assume "state = St_headers \<and> ?same q"
      and "parse_step data len i state hdrs q = Ret r q'"
    then show "\<forall>ex. Inr (Returned r q') = Inr ex \<longrightarrow> ?same (exit_record ex)"
      by (auto dest!: parse_step_Ret_same)
  qed auto
  with assms show ?thesis by blast
qed

text \<open>
  The version state: whatever comes after the version bytes (the end of the buffer, a
  byte beyond the limit, or a CR with or without its LF), the record returned has the
  version bytes, at most 32, and the method and url it had.
\<close>

lemma version_at_CR:
  assumes loop: "parse_loop data len i St_version hdrs False q = Inr ex"
    and dr: "drop i data = CR # rest" and lt: "i < len"
  shows "method (exit_record ex) = method q \<and> url (exit_record ex) = url q \<and>
         version (exit_record ex) = version q"
proof (cases "parse_step data len i St_version hdrs q")
  case (Flt f)
  from parse_loop_Flt [OF lt Flt] loop show ?thesis by simp
next
  case (Ret r q')
  from parse_loop_Ret [OF lt Ret] loop parse_step_Ret_same [OF Ret] show ?thesis by auto
next
  case (Next i' state' hdrs' stop' q')
  have "at data i = Inr CR" using dr by (rule at_drop_Cons)
  with Next have st: "state' = St_headers" and same: "q' = q"
    by (auto simp: parse_step_St_version split: if_splits sum.splits)
  from parse_loop_Next [OF lt Next] loop
  have "parse_loop data len i' St_headers hdrs' stop' q = Inr ex" by (simp add: st same)
  then show ?thesis by (rule parse_loop_headers_kept)
qed

lemma version_state_exit:
  assumes loop: "parse_loop data (length data) i St_version hdrs False q = Inr ex"
    and dr: "drop i data = A" and i: "i \<le> length data" and q: "version q = []"
  shows "method (exit_record ex) = method q \<and> url (exit_record ex) = url q \<and>
         version (exit_record ex) = take max_version_len (takeWhile version_byte A)"
proof -
  define M where "M = takeWhile version_byte A"
  define R where "R = dropWhile version_byte A"
  define t where "t = take max_version_len M"
  let ?q1 = "q\<lparr>version := t\<rparr>"
  have A: "A = M @ R" by (simp add: M_def R_def)
  have Mt: "M = t @ drop max_version_len M" by (simp add: t_def)
  have bytes: "\<forall>c \<in> set t. version_byte c"
    unfolding t_def M_def by (rule takeWhile_bytes)
  from length_drop_data [OF dr i] A have len: "i + length M + length R = length data"
    by simp
  have le_t: "length t \<le> length M" "length t \<le> max_version_len" by (simp_all add: t_def)
  have dr': "drop i data = t @ (drop max_version_len M @ R)"
    using dr A Mt by (metis append_assoc)
  have "parse_loop data (length data) i St_version hdrs False q
      = parse_loop data (length data) (i + length t) St_version hdrs False
          (q\<lparr>version := version q @ t\<rparr>)"
    using dr'
  proof (rule version_run)
    from len le_t show "i + length t \<le> length data" by auto
    from bytes show "CR \<notin> set t" by (rule version_bytes_set)
    from le_t show "length (version q) + length t \<le> max_version_len" by (simp add: q)
  qed
  with loop have loop': "parse_loop data (length data) (i + length t) St_version hdrs False ?q1
      = Inr ex"
    by (simp add: q)
  from drop_append_shift [OF dr']
  have after: "drop (i + length t) data = drop max_version_len M @ R" .
  have "method (exit_record ex) = method ?q1 \<and> url (exit_record ex) = url ?q1 \<and>
        version (exit_record ex) = version ?q1"
  proof (cases "max_version_len < length M")
    case True
    then obtain c r where dM: "drop max_version_len M = c # r"
      by (cases "drop max_version_len M") auto
    then have "c \<in> set M" by (metis in_set_dropD list.set_intros(1))
    then have "version_byte c" unfolding M_def by (blast dest: set_takeWhileD)
    then have c: "c \<noteq> CR" by (simp add: version_byte_def)
    from True have lt: "length t = max_version_len" by (simp add: t_def)
    have "parse_loop data (length data) (i + length t) St_version hdrs False ?q1
        = Inr (Returned version_too_long ?q1)"
    proof (rule version_overflow [OF _ _ c])
      show "drop (i + length t) data = c # (r @ R)" using after dM by simp
      from len True lt show "i + length t < length data" by auto
      show "length (version ?q1) = max_version_len" using lt by simp
    qed
    with loop' show ?thesis by auto
  next
    case False
    then have leM: "length M \<le> max_version_len" by simp
    then have tM: "t = M" by (simp add: t_def)
    from after leM have after': "drop (i + length t) data = R" by simp
    show ?thesis
    proof (cases R)
      case Nil
      with len tM have "length data \<le> i + length t" by auto
      with loop' show ?thesis by (auto simp: parse_loop_done)
    next
      case (Cons c R')
      with len tM have lt: "i + length t < length data" by auto
      from Cons have "\<not> version_byte c" unfolding R_def by (rule dropWhile_Cons_not)
      then have "c = CR" by (simp add: version_byte_def)
      with after' Cons have "drop (i + length t) data = CR # R'" by simp
      with loop' show ?thesis using lt by (rule version_at_CR)
    qed
  qed
  then show ?thesis by (simp add: t_def M_def)
qed

lemma take1_eq_ConsD: "take 1 xs = [c] \<Longrightarrow> xs = c # drop 1 xs"
  by (cases xs) auto

lemma method_done_split:
  assumes "method_done b"
  shows "b = method_part b @ SPACE # after_method b"
proof -
  from assms have "take 1 (dropWhile method_byte b) = [SPACE]" by (simp add: method_done_def)
  then have "dropWhile method_byte b = SPACE # after_method b"
    unfolding after_method_def by (rule take1_eq_ConsD)
  moreover have "b = takeWhile method_byte b @ dropWhile method_byte b" by simp
  ultimately show ?thesis by (simp add: method_part_def)
qed

lemma url_done_split:
  assumes "url_done b"
  shows "after_method b = url_part b @ SPACE # after_url b"
proof -
  from assms have "take 1 (dropWhile method_byte (after_method b)) = [SPACE]"
    by (simp add: url_done_def)
  then have "dropWhile method_byte (after_method b) = SPACE # after_url b"
    unfolding after_url_def by (rule take1_eq_ConsD)
  moreover have "after_method b
      = takeWhile method_byte (after_method b) @ dropWhile method_byte (after_method b)"
    by simp
  ultimately show ?thesis by (simp add: url_part_def)
qed

lemma part_bytes:
  "SPACE \<notin> set (method_part b) \<and> CR \<notin> set (method_part b) \<and> LF \<notin> set (method_part b)"
  "SPACE \<notin> set (url_part b) \<and> CR \<notin> set (url_part b) \<and> LF \<notin> set (url_part b)"
  unfolding method_part_def url_part_def
  by (rule method_bytes_set, blast dest: set_takeWhileD)+

text \<open>The record with which the loop is left, field by field, from the bytes of the buffer.\<close>

lemma loop_exit_fields:
  assumes loop: "parse_loop b (length b) 0 St_method [] False req = Inr ex"
    and req: "method req = []" "url req = []" "version req = []"
  shows "method (exit_record ex) = take max_method_len (method_part b) \<and>
         url (exit_record ex) = (if method_done b then take max_url_len (url_part b) else []) \<and>
         version (exit_record ex)
           = (if url_done b then take max_version_len (version_part b) else [])"
proof (cases "method_done b")
  case False
  then have nu: "\<not> url_done b" by (simp add: url_done_def)
  from False have "\<not> (takeWhile method_byte b \<noteq> [] \<and>
      length (takeWhile method_byte b) \<le> max_method_len \<and>
      take 1 (dropWhile method_byte b) = [SPACE])"
    by (simp add: method_done_def method_part_def)
  with method_state_exit [of 0 b b req "[]"] req(1)
  obtain ex' where "parse_loop b (length b) 0 St_method [] False req = Inr ex'"
    and "exit_record ex' = req\<lparr>method := take max_method_len (takeWhile method_byte b)\<rparr>"
    by auto
  with loop have "exit_record ex = req\<lparr>method := take max_method_len (method_part b)\<rparr>"
    by (simp add: method_part_def)
  with False nu req show ?thesis by simp
next
  case md: True
  let ?M = "method_part b"
  let ?q1 = "req\<lparr>method := ?M\<rparr>"
  note b = method_done_split [OF md]
  from md have M: "?M \<noteq> []" "length ?M \<le> max_method_len" by (simp_all add: method_done_def)
  then have takeM: "take max_method_len ?M = ?M" by simp
  note Mb = part_bytes(1) [of b]
  have lenb: "length b = length ?M + 1 + length (after_method b)"
    by (subst b) simp
  show ?thesis
  proof (cases "url_done b")
    case False
    have "parse_loop b (length b) 0 St_method [] False req
        = parse_loop b (length b) (length ?M + 1) St_url [] False ?q1"
      using b
    proof (rule reach_url)
      show "length ?M + 1 \<le> length b" using lenb by simp
    qed (use M Mb req in simp_all)
    with loop have loop1: "parse_loop b (length b) (length ?M + 1) St_url [] False ?q1 = Inr ex"
      by simp
    have "b = (?M @ [SPACE]) @ after_method b" using b by simp
    moreover have "length (?M @ [SPACE]) = length ?M + 1" by simp
    ultimately have dr: "drop (length ?M + 1) b = after_method b"
      by (metis append_eq_conv_conj)
    from False md have "\<not> (takeWhile method_byte (after_method b) \<noteq> [] \<and>
        length (takeWhile method_byte (after_method b)) \<le> max_url_len \<and>
        take 1 (dropWhile method_byte (after_method b)) = [SPACE])"
      by (simp add: url_done_def url_part_def)
    with url_state_exit [OF dr, of ?q1 "[]"] lenb req(2)
    obtain ex' where "parse_loop b (length b) (length ?M + 1) St_url [] False ?q1 = Inr ex'"
      and "exit_record ex' = ?q1\<lparr>url := take max_url_len (takeWhile method_byte (after_method b))\<rparr>"
      by auto
    with loop1 have "exit_record ex = ?q1\<lparr>url := take max_url_len (url_part b)\<rparr>"
      by (simp add: url_part_def)
    with md False req takeM show ?thesis by simp
  next
    case ud: True
    let ?U = "url_part b"
    let ?q2 = "req\<lparr>method := ?M, url := ?U\<rparr>"
    note a = url_done_split [OF ud]
    from ud have U: "?U \<noteq> []" "length ?U \<le> max_url_len" by (simp_all add: url_done_def)
    then have takeU: "take max_url_len ?U = ?U" by simp
    note Ub = part_bytes(2) [of b]
    have b2: "b = ?M @ SPACE # ?U @ SPACE # after_url b"
      using b a by simp
    have lenb2: "length b = length ?M + length ?U + 2 + length (after_url b)"
      by (subst b2) simp
    have "parse_loop b (length b) 0 St_method [] False req
        = parse_loop b (length b) (length ?M + length ?U + 2) St_version [] False ?q2"
      using b2
    proof (rule reach_version)
      show "length ?M + length ?U + 2 \<le> length b" using lenb2 by simp
    qed (use M Mb U Ub req in simp_all)
    with loop have loop2:
      "parse_loop b (length b) (length ?M + length ?U + 2) St_version [] False ?q2 = Inr ex"
      by simp
    have "b = (?M @ SPACE # ?U @ [SPACE]) @ after_url b" using b2 by simp
    moreover have "length (?M @ SPACE # ?U @ [SPACE]) = length ?M + length ?U + 2" by simp
    ultimately have dr: "drop (length ?M + length ?U + 2) b = after_url b"
      by (metis append_eq_conv_conj)
    from version_state_exit [OF loop2 dr] lenb2 req(3)
    have "method (exit_record ex) = ?M" "url (exit_record ex) = ?U"
      "version (exit_record ex) = take max_version_len (version_part b)"
      by (simp_all add: version_part_def)
    with md ud takeM takeU show ?thesis by simp
  qed
qed

lemma parse_record_exact:
  assumes p: "parse data len req = Some (Inr (r, req'))" and len: "len \<le> length data"
    and req: "method req = []" "url req = []" "version req = []"
  shows "method req' = take max_method_len (method_part (take len data)) \<and>
         url req' = (if method_done (take len data)
                     then take max_url_len (url_part (take len data)) else []) \<and>
         version req' = (if url_done (take len data)
                         then take max_version_len (version_part (take len data)) else []) \<and>
         headers req \<subseteq>\<^sub>m headers req' \<and>
         (r \<noteq> success \<and> r \<noteq> invalid_headers \<longrightarrow> headers req' = headers req)"
proof (cases "parse_loop data len 0 St_method [] False req")
  case (Inl f)
  with p show ?thesis by (simp add: parse_def)
next
  case (Inr ex)
  define b where "b = take len data"
  define q where "q = exit_record ex"
  from len have lb: "length b = len" by (simp add: b_def)
  have "parse_loop b (length b) 0 St_method [] False req = Inr ex"
    unfolding lb unfolding b_def using Inr by (simp only: parse_loop_take)
  from loop_exit_fields [OF this req]
  have f: "method q = take max_method_len (method_part b)"
    "url q = (if method_done b then take max_url_len (url_part b) else [])"
    "version q = (if url_done b then take max_version_len (version_part b) else [])"
    unfolding q_def by blast+
  from parse_loop_record_extends [OF Inr]
  have h: "headers q = headers req" unfolding q_def by blast
  show ?thesis
  proof (cases ex)
    case (Returned r1 req1)
    with Inr p have "req' = req1" by (simp add: parse_def)
    with Returned have "req' = q" by (simp add: q_def)
    with f h show ?thesis unfolding b_def by simp
  next
    case (Finished hdrs req1)
    then have q: "req1 = q" by (simp add: q_def)
    from Inr Finished p have "case split_headers hdrs req1 of
          None \<Rightarrow> False
        | Some (Inl f) \<Rightarrow> False
        | Some (Inr (ok, req'')) \<Rightarrow> req'' = req' \<and> (r = success \<or> r = invalid_headers)"
      by (simp add: parse_def split: option.splits sum.splits prod.splits if_splits)
    then obtain ok where "split_headers hdrs req1 = Some (Inr (ok, req'))"
      and r: "r = success \<or> r = invalid_headers"
      by (auto split: option.splits sum.splits)
    from split_headers_fields [OF this(1)]
    have "method req' = method q" "url req' = url q" "version req' = version q"
      "headers q \<subseteq>\<^sub>m headers req'"
      unfolding q by blast+
    with f h r show ?thesis unfolding b_def by auto
  qed
qed

text \<open>
  \<open>split_headers\<close> on lines of which one has no separator: the lines before the first such
  line have been inserted when it returns false.
\<close>

lemma split_headers_loop_stops:
  assumes "\<forall>kv \<in> set good. \<not> sublist '': '' (fst kv)" "\<not> sublist '': '' bad"
  shows "split_headers_loop (map header_line good @ bad # after) req
         = Inr (False, req\<lparr>headers := map_of good ++ headers req\<rparr>)"
  using assms(1)
proof (induction good arbitrary: req)
  case Nil
  from assms(2) have "find_str bad '': '' 0 = None" by (rule find_str_no_sublist)
  then show ?case by simp
next
  case (Cons kv good)
  obtain k v where kv: "kv = (k, v)" by (cases kv)
  from Cons.prems kv have "\<not> sublist '': '' k" by simp
  then have found: "find_str (header_line (k, v)) '': '' 0 = Some (length k)"
    unfolding header_line_def fst_conv snd_conv by (rule find_sep_header_line)
  have key: "substr (header_line (k, v)) 0 (length k) = Inr k"
    and val: "substr_from (header_line (k, v)) (length k + 2) = Inr v"
    by (simp_all add: header_line_def substr_def substr_from_def)
  from Cons.prems have "\<forall>kv \<in> set good. \<not> sublist '': '' (fst kv)" by simp
  from Cons.IH [OF this] found key val show ?case
    by (simp add: map_of_emplace kv del: map_of.simps)
qed

lemma parse_request_text_stops:
  assumes m: "m \<noteq> []" "length m \<le> max_method_len" "SPACE \<notin> set m" "CR \<notin> set m" "LF \<notin> set m"
    and t: "t \<noteq> []" "length t \<le> max_url_len" "SPACE \<notin> set t" "CR \<notin> set t" "LF \<notin> set t"
    and v: "v \<noteq> []" "length v \<le> max_version_len" "CR \<notin> set v"
    and good: "\<forall>kv \<in> set good. CR \<notin> set (fst kv) \<and> LF \<notin> set (fst kv) \<and>
         CR \<notin> set (snd kv) \<and> LF \<notin> set (snd kv) \<and> \<not> sublist '': '' (fst kv)"
    and bad: "bad \<noteq> []" "CR \<notin> set bad" "LF \<notin> set bad" "\<not> sublist '': '' bad"
    and after: "\<forall>l \<in> set after. l \<noteq> [] \<and> CR \<notin> set l \<and> LF \<notin> set l"
    and len: "length (request_text m t v (map header_line good @ bad # after)) \<le> len"
    and req: "method req = []" "url req = []" "version req = []"
  shows "parse (request_text m t v (map header_line good @ bad # after) @ body) len req
         = Some (Inr (invalid_headers,
             req\<lparr>method := m, url := t, version := v, headers := map_of good ++ headers req\<rparr>))"
proof -
  let ?lines = "map header_line good @ bad # after"
  let ?req' = "req\<lparr>method := m, url := t, version := v\<rparr>"
  have ne: "?lines \<noteq> []" by simp
  from good have "\<forall>l \<in> set (map header_line good). l \<noteq> [] \<and> CR \<notin> set l \<and> LF \<notin> set l"
    by (auto simp: header_line_chars)
  with bad after
  have ok: "\<forall>l \<in> set ?lines. l \<noteq> [] \<and> CR \<notin> set l \<and> LF \<notin> set l"
    by (simp add: ball_Un)
  then have cr: "\<forall>l \<in> set ?lines. CR \<notin> set l" by blast
  have loop: "parse_loop (request_text m t v ?lines @ body) len 0 St_method [] False req
      = Inr (Finished (join_lines ?lines) ?req')"
    using m t v ne ok len req by (rule parse_loop_request_text)
  from good have "\<forall>kv \<in> set good. \<not> sublist '': '' (fst kv)" by blast
  then have "split_headers_loop ?lines ?req'
      = Inr (False, ?req'\<lparr>headers := map_of good ++ headers ?req'\<rparr>)"
    using bad(4) by (rule split_headers_loop_stops)
  then have "split_headers (join_lines ?lines) ?req'
      = Some (Inr (False, ?req'\<lparr>headers := map_of good ++ headers ?req'\<rparr>))"
    by (simp add: split_headers_lines [OF ne cr])
  with loop show ?thesis by (simp add: parse_def)
qed

text \<open>A lone LF met in the headers state ends the parse.\<close>

lemma headers_lone_LF:
  assumes "drop i data = LF # rest" "i < len"
  shows "parse_loop data len i St_headers hdrs False req = Inr (Returned invalid_headers req)"
proof -
  have "at data i = Inr LF" using assms(1) by (rule at_drop_Cons)
  then have "parse_step data len i St_headers hdrs req = Ret invalid_headers req"
    by (simp add: parse_step_St_headers)
  with assms(2) show ?thesis by (rule parse_loop_Ret)
qed

text \<open>A request whose second header line has no separator, used below.\<close>

lemma malformed_second_line_example:
  "parse (request_text ''GET'' ''/x'' ''HTTP/1.1'' [''Host: a'', ''Bad''])
     (length (request_text ''GET'' ''/x'' ''HTTP/1.1'' [''Host: a'', ''Bad''])) Request_default
   = Some (Inr (invalid_headers, \<lparr>method = ''GET'', url = ''/x'', version = ''HTTP/1.1'',
        headers = [''Host'' \<mapsto> ''a'']\<rparr>))"
proof -
  let ?lines = "[''Host: a'', ''Bad'']"
  let ?req1 = "Request_default\<lparr>method := ''GET'', url := ''/x'', version := ''HTTP/1.1''\<rparr>"
  have loop: "parse_loop (request_text ''GET'' ''/x'' ''HTTP/1.1'' ?lines @ [])
        (length (request_text ''GET'' ''/x'' ''HTTP/1.1'' ?lines)) 0 St_method [] False
        Request_default
      = Inr (Finished (join_lines ?lines) ?req1)"
    by (rule parse_loop_request_text)
       (simp_all add: SPACE_def CR_def LF_def max_method_len_def max_url_len_def
          max_version_len_def Request_default_fields)
  have split: "split_headers (join_lines ?lines) ?req1 = Some (split_headers_loop ?lines ?req1)"
    by (rule split_headers_lines) (simp_all add: CR_def)
  have "find_str (''Host'' @ '': '' @ ''a'') '': '' 0 = Some (length ''Host'')"
    by (rule find_sep_header_line) code_simp
  then have f1: "find_str ''Host: a'' '': '' 0 = Some 4" by simp
  have f2: "find_str ''Bad'' '': '' 0 = None"
    by (rule find_str_no_sublist) code_simp
  have "split_headers_loop ?lines ?req1
      = Inr (False, ?req1\<lparr>headers := [''Host'' \<mapsto> ''a'']\<rparr>)"
    by (simp add: f1 f2 substr_def substr_from_def emplace_def Request_default_fields)
  with loop split show ?thesis
    by (simp add: parse_def Request_default_def)
qed

text \<open>A request line cut off by a CR after the method, used below.\<close>

lemma method_then_CR_example:
  "parse (''GET'' @ CR # ''/x'') (length (''GET'' @ CR # ''/x'')) Request_default
   = Some (Inr (invalid_format, \<lparr>method = ''GET'', url = [], version = [],
        headers = Map.empty\<rparr>))"
proof -
  let ?data = "''GET'' @ CR # ''/x''"
  let ?q = "Request_default\<lparr>method := ''GET''\<rparr>"
  have "parse_loop ?data (length ?data) 0 St_method [] False Request_default
      = parse_loop ?data (length ?data) (0 + length ''GET'') St_method [] False
          (Request_default\<lparr>method := method Request_default @ ''GET''\<rparr>)"
    by (rule method_run [where rest = "CR # ''/x''"])
       (simp_all add: SPACE_def CR_def LF_def max_method_len_def Request_default_fields)
  also have "\<dots> = parse_loop ?data (length ?data) (0 + length ''GET'') St_method [] False ?q"
    by (simp add: Request_default_fields)
  also have "\<dots> = Inr (Returned invalid_format ?q)"
    by (rule method_line_end [where c = CR and rest = "''/x''"]) simp_all
  finally show ?thesis
    by (simp add: parse_def Request_default_def)
qed

section \<open>A request without header lines\<close>

text \<open>
  With no header line at all the CRLF of the blank line is met in the headers state with
  nothing after it: it is taken for a line break, and the two empty lines it separates have
  no separator.
\<close>

lemma headers_crlf_at_end:
  assumes "drop i data = CR # LF # rest" "len = i + 2"
  shows "parse_loop data len i St_headers hdrs False req = Inr (Finished (hdrs @ CRLF) req)"
proof -
  have a0: "at data i = Inr CR" using assms(1) by (rule at_drop_Cons)
  from assms(1) have "drop (Suc i) data = LF # rest" by (rule drop_eq_ConsD)
  then have a1: "at data (Suc i) = Inr LF" by (rule at_drop_Cons)
  from assms(2) have "blank_line_follows data len i = Inr False"
    by (simp add: blank_line_follows_def)
  with assms(2) have "parse_step data len i St_headers hdrs req
      = Next (i + 2) St_headers (hdrs @ CRLF) False req"
    by (simp add: parse_step_St_headers [OF a0] a1)
  moreover from assms(2) have "i < len" by simp
  ultimately have "parse_loop data len i St_headers hdrs False req
      = parse_loop data len (i + 2) St_headers (hdrs @ CRLF) False req"
    by (rule parse_loop_Next [rotated])
  with assms(2) show ?thesis by (simp add: parse_loop_done)
qed

lemma no_header_lines_rejected:
  assumes m: "m \<noteq> []" "length m \<le> max_method_len" "SPACE \<notin> set m" "CR \<notin> set m" "LF \<notin> set m"
    and t: "t \<noteq> []" "length t \<le> max_url_len" "SPACE \<notin> set t" "CR \<notin> set t" "LF \<notin> set t"
    and v: "v \<noteq> []" "length v \<le> max_version_len" "CR \<notin> set v"
  shows "parse (request_text m t v []) (length (request_text m t v [])) Request_default
         = Some (Inr (invalid_headers, Request_default\<lparr>method := m, url := t, version := v\<rparr>))"
proof -
  let ?data = "request_text m t v []"
  let ?i = "length m + length t + length v + 4"
  let ?req1 = "Request_default\<lparr>method := m, url := t, version := v\<rparr>"
  have data: "?data = m @ SPACE # t @ SPACE # v @ CR # LF # [CR, LF]"
    by (simp add: request_text_def CRLF_def)
  have len: "length ?data = ?i + 2" by (simp add: data)
  have "?data = (m @ SPACE # t @ SPACE # v @ [CR, LF]) @ [CR, LF]" by (simp add: data)
  moreover have "length (m @ SPACE # t @ SPACE # v @ [CR, LF]) = ?i" by simp
  ultimately have dr: "drop ?i ?data = CR # LF # []" by (metis append_eq_conv_conj)
  have "parse_loop ?data (length ?data) 0 St_method [] False Request_default
        = parse_loop ?data (length ?data) ?i St_headers [] False ?req1"
    using data _ m t v
  proof (rule request_line)
    show "?i \<le> length ?data" by (simp add: len)
  qed (simp_all add: Request_default_fields)
  also have "\<dots> = Inr (Finished ([] @ CRLF) ?req1)"
    using dr len by (rule headers_crlf_at_end)
  finally have loop: "parse_loop ?data (length ?data) 0 St_method [] False Request_default
      = Inr (Finished CRLF ?req1)" by simp
  have "split_headers (join_lines [[], []]) ?req1 = Some (split_headers_loop [[], []] ?req1)"
    by (rule split_headers_lines) simp_all
  moreover have "find_str [] '': '' 0 = None" by (simp add: find_str.simps)
  ultimately have "split_headers CRLF ?req1 = Some (Inr (False, ?req1))" by simp
  with loop show ?thesis by (simp add: parse_def)
qed

section \<open>The claims\<close>

text \<open>
  C1, as amended. The claim reads: every buffer \<open>METHOD SP TARGET SP VERSION CRLF\<close>, then zero
  or more lines \<open>KEY ": " VALUE CRLF\<close>, then CRLF, with the three tokens non-empty, free of
  space, CR and LF and within 32, 1024 and 32 bytes, and no CR or LF in a key or value, is
  parsed with success, the three tokens reproduced and the header map holding exactly the
  pairs of the input.

  The code splits each line at its first \<open>": "\<close> and inserts with \<open>emplace\<close>, so what holds
  is: with at least one header line and no \<open>": "\<close> inside a key, \<open>parse\<close> on a
  default-constructed record returns \<open>success\<close>, the record has exactly \<open>METHOD\<close>,
  \<open>TARGET\<close> and \<open>VERSION\<close>, and its header map sends every key to the value of the first
  line with that key and has no other key (\<open>map_of\<close> looks up the first pair).
\<close>

theorem C1_wellformed_request:
  assumes "m \<noteq> []" "length m \<le> 32" "set m \<inter> {SPACE, CR, LF} = {}"
    and "t \<noteq> []" "length t \<le> 1024" "set t \<inter> {SPACE, CR, LF} = {}"
    and "v \<noteq> []" "length v \<le> 32" "set v \<inter> {SPACE, CR, LF} = {}"
    and "kvs \<noteq> []"
    and "\<forall>kv \<in> set kvs. set (fst kv) \<inter> {CR, LF} = {} \<and> set (snd kv) \<inter> {CR, LF} = {} \<and>
           \<not> sublist '': '' (fst kv)"
  shows "parse (request_text m t v (map header_line kvs))
           (length (request_text m t v (map header_line kvs))) Request_default
         = Some (Inr (success, \<lparr>method = m, url = t, version = v, headers = map_of kvs\<rparr>))"
proof -
  from assms(11)
  have kvs: "\<forall>kv \<in> set kvs. CR \<notin> set (fst kv) \<and> LF \<notin> set (fst kv) \<and>
         CR \<notin> set (snd kv) \<and> LF \<notin> set (snd kv) \<and> \<not> sublist '': '' (fst kv)"
    by auto
  have "parse (request_text m t v (map header_line kvs) @ [])
           (length (request_text m t v (map header_line kvs))) Request_default
        = Some (Inr (success, Request_default\<lparr>method := m, url := t, version := v,
             headers := map_of kvs ++ headers Request_default\<rparr>))"
  proof (rule parse_request_text_wellformed [OF _ _ _ _ _ _ _ _ _ _ _ _ _ assms(10) kvs])
  qed (use assms in \<open>auto simp: max_method_len_def max_url_len_def max_version_len_def
        Request_default_fields\<close>)
  then show ?thesis by (simp add: Request_default_def)
qed


theorem C1_wellformed_request_witness:
  "parse (request_text ''GET'' ''/x'' ''HTTP/1.1'' [header_line (''Host'', ''example.com'')])
     (length (request_text ''GET'' ''/x'' ''HTTP/1.1'' [header_line (''Host'', ''example.com'')]))
     Request_default
   = Some (Inr (success, \<lparr>method = ''GET'', url = ''/x'', version = ''HTTP/1.1'',
        headers = [''Host'' \<mapsto> ''example.com'']\<rparr>))"
proof -
  have "\<not> sublist '': '' ''Host''" by code_simp
  with C1_wellformed_request [of "''GET''" "''/x''" "''HTTP/1.1''" "[(''Host'', ''example.com'')]"]
  show ?thesis by (simp add: SPACE_def CR_def LF_def)
qed

text \<open>
  C1 as stated fails on the request below, which has the claimed form with the pairs
  \<open>A \<mapsto> 1\<close>, \<open>A \<mapsto> 2\<close> and \<open>X: Y \<mapsto> z\<close>: \<open>parse\<close> succeeds, but the map it returns has
  neither \<open>A \<mapsto> 2\<close> nor the key \<open>X: Y\<close>; the third line was split at its first separator
  into \<open>X \<mapsto> Y: z\<close>.
\<close>

theorem C1_counterexample:
  "parse (request_text ''GET'' ''/x'' ''HTTP/1.1''
            [header_line (''A'', ''1''), header_line (''A'', ''2''), header_line (''X: Y'', ''z'')])
     (length (request_text ''GET'' ''/x'' ''HTTP/1.1''
            [header_line (''A'', ''1''), header_line (''A'', ''2''), header_line (''X: Y'', ''z'')]))
     Request_default
   = Some (Inr (success, \<lparr>method = ''GET'', url = ''/x'', version = ''HTTP/1.1'',
        headers = [''X'' \<mapsto> ''Y: z'', ''A'' \<mapsto> ''1'']\<rparr>))"
proof -
  let ?kvs = "[(''A'', ''1''), (''A'', ''2''), (''X'', ''Y: z'')]"
  have same: "header_line (''X: Y'', ''z'') = header_line (''X'', ''Y: z'')"
    by (simp add: header_line_def)
  have "\<not> sublist '': '' ''A''" "\<not> sublist '': '' ''X''" by code_simp+
  then have "parse (request_text ''GET'' ''/x'' ''HTTP/1.1'' (map header_line ?kvs) @ [])
       (length (request_text ''GET'' ''/x'' ''HTTP/1.1'' (map header_line ?kvs))) Request_default
     = Some (Inr (success, Request_default\<lparr>method := ''GET'', url := ''/x'',
          version := ''HTTP/1.1'', headers := map_of ?kvs ++ headers Request_default\<rparr>))"
    by (intro parse_request_text_wellformed)
       (simp_all add: SPACE_def CR_def LF_def max_method_len_def max_url_len_def
          max_version_len_def Request_default_fields)
  then show ?thesis by (simp add: same Request_default_def)
qed

text \<open>
  C2. For every buffer and every \<open>len\<close> not beyond its size, \<open>parse\<close> returns a
  \<open>ParseResult\<close> together with the record: it does not fault on a read, \<open>substr\<close> does
  not throw, and the splitting loop ends. No byte at an index \<open>\<ge> len\<close> is inspected: the
  outcome is that of the buffer cut down to its first \<open>len\<close> bytes, where such a read
  (the look-ahead at \<open>i + 1\<close>, \<open>i + 2\<close>, \<open>i + 3\<close> included) would be a fault.
\<close>

theorem C2_defined_result_within_len:
  assumes "len \<le> length data"
  shows "(\<exists>r req'. parse data len req = Some (Inr (r, req'))) \<and>
         parse (take len data) len req = parse data len req"
proof
  show "\<exists>r req'. parse data len req = Some (Inr (r, req'))"
  proof (cases "parse_loop data len 0 St_method [] False req")
    case (Inl f)
    with parse_loop_no_fault [OF assms] show ?thesis by blast
  next
    case (Inr ex)
    show ?thesis
    proof (cases ex)
      case (Returned r req')
      with Inr show ?thesis by (simp add: parse_def)
    next
      case (Finished hdrs req')
      from split_headers_returns [of hdrs req'] obtain ok req''
        where "split_headers hdrs req' = Some (Inr (ok, req''))" by blast
      with Inr Finished show ?thesis by (simp add: parse_def)
    qed
  qed
next
  show "parse (take len data) len req = parse data len req"
    by (simp add: parse_def parse_loop_take)
qed


theorem C2_defined_result_within_len_witness:
  "(5::nat) \<le> length ''GET /x HTTP'' \<and>
   (\<exists>r req'. parse ''GET /x HTTP'' 5 Request_default = Some (Inr (r, req'))) \<and>
   parse (take 5 ''GET /x HTTP'') 5 Request_default = parse ''GET /x HTTP'' 5 Request_default"
proof -
  have h: "(5::nat) \<le> length ''GET /x HTTP''" by simp
  from h C2_defined_result_within_len [OF h, of Request_default] show ?thesis by blast
qed

text \<open>
  C3, as amended. The claim reads: on a non-success return the partially built record is
  discarded, and no accumulated method, url or version byte and no header entry is visible
  to the caller.

  \<open>parse\<close> writes into the caller's record and has no reset on any return, so what holds
  is the opposite: a non-success return hands back exactly what was accumulated before the
  failure. For \<open>len\<close> within the buffer and a record passed in with empty method, url and
  version: the method is the method bytes of the buffer, cut at 32; the url is the url
  bytes, cut at 1024, when the method was completed, and empty otherwise; the version is
  the version bytes, cut at 32, when the url was completed, and empty otherwise; every
  header entry passed in is still there, and no entry is added when the result is not
  \<open>invalid_headers\<close>. And when a well-formed request line is followed by header lines of
  which \<open>bad\<close> is the first without a separator, the result is \<open>invalid_headers\<close> and the
  record holds the method, url and version of the request line and the entries of the
  lines before \<open>bad\<close> (the first value of a repeated key).
\<close>

theorem C3_error_keeps_partial_record:
  "(parse data len req = Some (Inr (r, req')) \<and> r \<noteq> success \<and> len \<le> length data \<and>
    method req = [] \<and> url req = [] \<and> version req = [] \<longrightarrow>
      method req' = take 32 (method_part (take len data)) \<and>
      url req' = (if method_done (take len data)
                  then take 1024 (url_part (take len data)) else []) \<and>
      version req' = (if url_done (take len data)
                      then take 32 (version_part (take len data)) else []) \<and>
      headers req \<subseteq>\<^sub>m headers req' \<and>
      (r \<noteq> invalid_headers \<longrightarrow> headers req' = headers req)) \<and>
   (m \<noteq> [] \<and> length m \<le> 32 \<and> set m \<inter> {SPACE, CR, LF} = {} \<and>
    t \<noteq> [] \<and> length t \<le> 1024 \<and> set t \<inter> {SPACE, CR, LF} = {} \<and>
    v \<noteq> [] \<and> length v \<le> 32 \<and> set v \<inter> {SPACE, CR, LF} = {} \<and>
    (\<forall>kv \<in> set good. set (fst kv) \<inter> {CR, LF} = {} \<and> set (snd kv) \<inter> {CR, LF} = {} \<and>
       \<not> sublist '': '' (fst kv)) \<and>
    bad \<noteq> [] \<and> set bad \<inter> {CR, LF} = {} \<and> \<not> sublist '': '' bad \<and>
    (\<forall>l \<in> set after. l \<noteq> [] \<and> set l \<inter> {CR, LF} = {}) \<longrightarrow>
      parse (request_text m t v (map header_line good @ bad # after))
        (length (request_text m t v (map header_line good @ bad # after))) Request_default
      = Some (Inr (invalid_headers,
          \<lparr>method = m, url = t, version = v, headers = map_of good\<rparr>)))"
proof (intro conjI impI)
  assume a: "parse data len req = Some (Inr (r, req')) \<and> r \<noteq> success \<and> len \<le> length data \<and>
    method req = [] \<and> url req = [] \<and> version req = []"
  then have e: "method req' = take max_method_len (method_part (take len data)) \<and>
         url req' = (if method_done (take len data)
                     then take max_url_len (url_part (take len data)) else []) \<and>
         version req' = (if url_done (take len data)
                         then take max_version_len (version_part (take len data)) else []) \<and>
         headers req \<subseteq>\<^sub>m headers req' \<and>
         (r \<noteq> success \<and> r \<noteq> invalid_headers \<longrightarrow> headers req' = headers req)"
    by (intro parse_record_exact) blast+
  from e show "method req' = take 32 (method_part (take len data))"
    by (simp add: max_method_len_def)
  from e show "url req' = (if method_done (take len data)
                  then take 1024 (url_part (take len data)) else [])"
    by (simp add: max_url_len_def)
  from e show "version req' = (if url_done (take len data)
                      then take 32 (version_part (take len data)) else [])"
    by (simp add: max_version_len_def)
  from e show "headers req \<subseteq>\<^sub>m headers req'" by blast
  assume "r \<noteq> invalid_headers"
  with a e show "headers req' = headers req" by blast
next
  assume a: "m \<noteq> [] \<and> length m \<le> 32 \<and> set m \<inter> {SPACE, CR, LF} = {} \<and>
    t \<noteq> [] \<and> length t \<le> 1024 \<and> set t \<inter> {SPACE, CR, LF} = {} \<and>
    v \<noteq> [] \<and> length v \<le> 32 \<and> set v \<inter> {SPACE, CR, LF} = {} \<and>
    (\<forall>kv \<in> set good. set (fst kv) \<inter> {CR, LF} = {} \<and> set (snd kv) \<inter> {CR, LF} = {} \<and>
       \<not> sublist '': '' (fst kv)) \<and>
    bad \<noteq> [] \<and> set bad \<inter> {CR, LF} = {} \<and> \<not> sublist '': '' bad \<and>
    (\<forall>l \<in> set after. l \<noteq> [] \<and> set l \<inter> {CR, LF} = {})"
  let ?lines = "map header_line good @ bad # after"
  from a have good: "\<forall>kv \<in> set good. CR \<notin> set (fst kv) \<and> LF \<notin> set (fst kv) \<and>
         CR \<notin> set (snd kv) \<and> LF \<notin> set (snd kv) \<and> \<not> sublist '': '' (fst kv)"
    by auto
  from a have after: "\<forall>l \<in> set after. l \<noteq> [] \<and> CR \<notin> set l \<and> LF \<notin> set l"
    by auto
  from a have bad: "bad \<noteq> []" "CR \<notin> set bad" "LF \<notin> set bad" "\<not> sublist '': '' bad"
    by auto
  have "parse (request_text m t v ?lines @ []) (length (request_text m t v ?lines))
          Request_default
        = Some (Inr (invalid_headers, Request_default\<lparr>method := m, url := t, version := v,
             headers := map_of good ++ headers Request_default\<rparr>))"
  proof (rule parse_request_text_stops [OF _ _ _ _ _ _ _ _ _ _ _ _ _ good bad after])
  qed (use a in \<open>auto simp: max_method_len_def max_url_len_def max_version_len_def
        Request_default_fields\<close>)
  then show "parse (request_text m t v ?lines) (length (request_text m t v ?lines))
        Request_default
      = Some (Inr (invalid_headers, \<lparr>method = m, url = t, version = v, headers = map_of good\<rparr>))"
    by (simp add: Request_default_def)
qed

theorem C3_error_keeps_partial_record_witness:
  "parse (request_text ''GET'' ''/x'' ''HTTP/1.1'' [header_line (''Host'', ''a''), ''Bad''])
     (length (request_text ''GET'' ''/x'' ''HTTP/1.1'' [header_line (''Host'', ''a''), ''Bad'']))
     Request_default
   = Some (Inr (invalid_headers, \<lparr>method = ''GET'', url = ''/x'', version = ''HTTP/1.1'',
        headers = [''Host'' \<mapsto> ''a'']\<rparr>)) \<and>
   take 32 (method_part
      (request_text ''GET'' ''/x'' ''HTTP/1.1'' [header_line (''Host'', ''a''), ''Bad''])) = ''GET'' \<and>
   (if method_done (request_text ''GET'' ''/x'' ''HTTP/1.1'' [header_line (''Host'', ''a''), ''Bad''])
    then take 1024 (url_part
      (request_text ''GET'' ''/x'' ''HTTP/1.1'' [header_line (''Host'', ''a''), ''Bad'']))
    else []) = ''/x'' \<and>
   (if url_done (request_text ''GET'' ''/x'' ''HTTP/1.1'' [header_line (''Host'', ''a''), ''Bad''])
    then take 32 (version_part
      (request_text ''GET'' ''/x'' ''HTTP/1.1'' [header_line (''Host'', ''a''), ''Bad'']))
    else []) = ''HTTP/1.1'' \<and>
   take 32 (method_part (''GET'' @ CR # ''/x'')) = ''GET'' \<and>
   (if method_done (''GET'' @ CR # ''/x'') then take 1024 (url_part (''GET'' @ CR # ''/x''))
    else []) = [] \<and>
   headers Request_default
     = headers \<lparr>method = ''GET'', url = [], version = [], headers = Map.empty\<rparr>"
proof -
  let ?D = "request_text ''GET'' ''/x'' ''HTTP/1.1'' [header_line (''Host'', ''a''), ''Bad'']"
  let ?R = "\<lparr>method = ''GET'', url = ''/x'', version = ''HTTP/1.1'',
        headers = [''Host'' \<mapsto> ''a'']\<rparr>"
  let ?D2 = "''GET'' @ CR # ''/x''"
  let ?R2 = "\<lparr>method = ''GET'', url = [], version = [], headers = Map.empty\<rparr>"
  note T = C3_error_keeps_partial_record [where data = ?D and len = "length ?D"
      and req = Request_default and r = invalid_headers and req' = ?R
      and m = "''GET''" and t = "''/x''" and v = "''HTTP/1.1''"
      and good = "[(''Host'', ''a'')]" and bad = "''Bad''" and after = "[]"]
  note T2 = C3_error_keeps_partial_record [where data = ?D2 and len = "length ?D2"
      and req = Request_default and r = invalid_format and req' = ?R2,
      THEN conjunct1]
  have s: "\<not> sublist '': '' ''Host''" "\<not> sublist '': '' ''Bad''" by code_simp+
  from T [THEN conjunct2] s
  have p: "parse ?D (length ?D) Request_default = Some (Inr (invalid_headers, ?R))"
    by (simp add: SPACE_def CR_def LF_def)
  have h: "parse ?D (length ?D) Request_default = Some (Inr (invalid_headers, ?R)) \<and>
      invalid_headers \<noteq> success \<and> length ?D \<le> length ?D \<and>
      method Request_default = [] \<and> url Request_default = [] \<and> version Request_default = []"
    using p by (simp only: Request_default_fields) simp
  have h2: "parse ?D2 (length ?D2) Request_default = Some (Inr (invalid_format, ?R2)) \<and>
      invalid_format \<noteq> success \<and> length ?D2 \<le> length ?D2 \<and>
      method Request_default = [] \<and> url Request_default = [] \<and> version Request_default = []"
    using method_then_CR_example by (simp only: Request_default_fields) simp
  have tk: "take (length ?D) ?D = ?D" "take (length ?D2) ?D2 = ?D2"
    by (rule take_all, rule order_refl)+
  have sel: "method ?R = ''GET''" "url ?R = ''/x''" "version ?R = ''HTTP/1.1''"
    "method ?R2 = ''GET''" "url ?R2 = []"
    by simp_all
  from T [THEN conjunct1, THEN mp, OF h]
  have f: "''GET'' = take 32 (method_part ?D)"
    "''/x'' = (if method_done ?D then take 1024 (url_part ?D) else [])"
    "''HTTP/1.1'' = (if url_done ?D then take 32 (version_part ?D) else [])"
    unfolding tk sel by blast+
  from T2 [THEN mp, OF h2]
  have f2: "''GET'' = take 32 (method_part ?D2)"
    "[] = (if method_done ?D2 then take 1024 (url_part ?D2) else [])"
    "headers ?R2 = headers Request_default"
    unfolding tk sel by blast+
  show ?thesis
    using p f [symmetric] f2 [symmetric] by blast
qed

text \<open>
  C3 as stated fails on the request below, whose second header line has no separator:
  \<open>parse\<close> returns \<open>invalid_headers\<close>, and the record handed back has the method, url and
  version of the request line and the header of the first line.
\<close>

theorem C3_counterexample:
  "parse (request_text ''GET'' ''/x'' ''HTTP/1.1'' [''Host: a'', ''Bad''])
     (length (request_text ''GET'' ''/x'' ''HTTP/1.1'' [''Host: a'', ''Bad''])) Request_default
   = Some (Inr (invalid_headers, \<lparr>method = ''GET'', url = ''/x'', version = ''HTTP/1.1'',
        headers = [''Host'' \<mapsto> ''a'']\<rparr>))"
  by (rule malformed_second_line_example)

text \<open>
  C4. A request with a well-formed request line whose header block has a line without the
  separator \<open>": "\<close> is rejected with \<open>invalid_headers\<close>, whatever the lines before and
  after it are (well-formed or not). The lines of a header block are non-empty and free of
  CR and LF: an empty line is the blank line that ends the block.
\<close>

theorem C4_line_without_separator:
  assumes "m \<noteq> []" "length m \<le> 32" "set m \<inter> {SPACE, CR, LF} = {}"
    and "t \<noteq> []" "length t \<le> 1024" "set t \<inter> {SPACE, CR, LF} = {}"
    and "v \<noteq> []" "length v \<le> 32" "set v \<inter> {SPACE, CR, LF} = {}"
    and "\<forall>l \<in> set (before @ bad # after). l \<noteq> [] \<and> set l \<inter> {CR, LF} = {}"
    and "\<not> sublist '': '' bad"
  shows "\<exists>req'. parse (request_text m t v (before @ bad # after))
                  (length (request_text m t v (before @ bad # after))) Request_default
               = Some (Inr (invalid_headers, req'))"
proof -
  let ?lines = "before @ bad # after"
  from assms(10) have ok: "\<forall>l \<in> set ?lines. l \<noteq> [] \<and> CR \<notin> set l \<and> LF \<notin> set l"
    by auto
  have bad: "bad \<in> set ?lines" by simp
  have "\<exists>req'. parse (request_text m t v ?lines @ [])
                  (length (request_text m t v ?lines)) Request_default
               = Some (Inr (invalid_headers, req'))"
  proof (rule parse_request_text_malformed [OF _ _ _ _ _ _ _ _ _ _ _ _ _ ok bad assms(11)])
  qed (use assms in \<open>auto simp: max_method_len_def max_url_len_def max_version_len_def
        Request_default_fields\<close>)
  then show ?thesis by simp
qed

theorem C4_line_without_separator_witness:
  "\<exists>req'. parse (request_text ''GET'' ''/x'' ''HTTP/1.1''
                    ([''Host: example.com''] @ ''X-Bad-Header'' # [''Accept: */*'']))
             (length (request_text ''GET'' ''/x'' ''HTTP/1.1''
                    ([''Host: example.com''] @ ''X-Bad-Header'' # [''Accept: */*''])))
             Request_default
           = Some (Inr (invalid_headers, req'))"
proof -
  have "\<not> sublist '': '' ''X-Bad-Header''" by code_simp
  with C4_line_without_separator [of "''GET''" "''/x''" "''HTTP/1.1''"
      "[''Host: example.com'']" "''X-Bad-Header''" "[''Accept: */*'']"]
  show ?thesis by (simp add: SPACE_def CR_def LF_def)
qed

text \<open>
  C5. The limits trigger on the byte after the limit. \<open>M\<close>, \<open>T\<close> and \<open>V\<close> are a method of
  exactly 32 bytes, a url of exactly 1024 bytes and a version of exactly 32 bytes; \<open>m\<close> and
  \<open>u\<close> are any valid method and url in front of them. Followed by its delimiter (a space,
  or CRLF for the version) each token passes its state: the loop goes on in the next state
  with the whole token stored, and the result is not the token's \<open>too_long\<close> code. Followed
  by one more token byte (\<open>c\<close>, or any non-CR byte \<open>cv\<close> for the version), \<open>parse\<close> returns
  \<open>method_too_long\<close>, \<open>url_too_long\<close> and \<open>version_too_long\<close>, with the first 32, 1024
  and 32 bytes stored.
\<close>

theorem C5_length_limits:
  fixes M T V m u rest :: string and c cv :: char and q :: Request
  assumes M: "length M = 32" "set M \<inter> {SPACE, CR, LF} = {}"
    and T: "length T = 1024" "set T \<inter> {SPACE, CR, LF} = {}"
    and V: "length V = 32" "CR \<notin> set V"
    and m: "m \<noteq> []" "length m \<le> 32" "set m \<inter> {SPACE, CR, LF} = {}"
    and u: "u \<noteq> []" "length u \<le> 1024" "set u \<inter> {SPACE, CR, LF} = {}"
    and c: "c \<notin> {SPACE, CR, LF}"
    and cv: "cv \<noteq> CR"
  shows
    "(let data = M @ SPACE # rest; len = length data in
        parse_loop data len 0 St_method [] False Request_default
          = parse_loop data len (length M + 1) St_url [] False (Request_default\<lparr>method := M\<rparr>) \<and>
        parse data len Request_default \<noteq> Some (Inr (method_too_long, q))) \<and>
     (let data = M @ c # rest in
        parse data (length data) Request_default
          = Some (Inr (method_too_long, Request_default\<lparr>method := M\<rparr>))) \<and>
     (let data = m @ SPACE # T @ SPACE # rest; len = length data in
        parse_loop data len 0 St_method [] False Request_default
          = parse_loop data len (length m + length T + 2) St_version [] False
              (Request_default\<lparr>method := m, url := T\<rparr>) \<and>
        parse data len Request_default \<noteq> Some (Inr (url_too_long, q))) \<and>
     (let data = m @ SPACE # T @ c # rest in
        parse data (length data) Request_default
          = Some (Inr (url_too_long, Request_default\<lparr>method := m, url := T\<rparr>))) \<and>
     (let data = m @ SPACE # u @ SPACE # V @ CR # LF # rest; len = length data in
        parse_loop data len 0 St_method [] False Request_default
          = parse_loop data len (length m + length u + length V + 4) St_headers [] False
              (Request_default\<lparr>method := m, url := u, version := V\<rparr>) \<and>
        parse data len Request_default \<noteq> Some (Inr (version_too_long, q))) \<and>
     (let data = m @ SPACE # u @ SPACE # V @ cv # rest in
        parse data (length data) Request_default
          = Some (Inr (version_too_long,
               Request_default\<lparr>method := m, url := u, version := V\<rparr>)))"
proof -
  note lim = max_method_len_def max_url_len_def max_version_len_def
  note dflt = Request_default_fields
  from M have M': "M \<noteq> []" "length M \<le> max_method_len" "length M = max_method_len"
      "SPACE \<notin> set M" "CR \<notin> set M" "LF \<notin> set M"
    by (auto simp: lim)
  from T have T': "T \<noteq> []" "length T \<le> max_url_len" "length T = max_url_len"
      "SPACE \<notin> set T" "CR \<notin> set T" "LF \<notin> set T"
    by (auto simp: lim)
  from V have V': "V \<noteq> []" "length V \<le> max_version_len" "length V = max_version_len"
    by (auto simp: lim)
  from m have m': "m \<noteq> []" "length m \<le> max_method_len"
      "SPACE \<notin> set m" "CR \<notin> set m" "LF \<notin> set m"
    by (auto simp: lim)
  from u have u': "u \<noteq> []" "length u \<le> max_url_len"
      "SPACE \<notin> set u" "CR \<notin> set u" "LF \<notin> set u"
    by (auto simp: lim)
  from c have c': "c \<noteq> SPACE" "c \<noteq> CR" "c \<noteq> LF" by auto
  have p1: "parse_loop (M @ SPACE # rest) (length (M @ SPACE # rest)) 0 St_method [] False
        Request_default
      = parse_loop (M @ SPACE # rest) (length (M @ SPACE # rest)) (length M + 1) St_url [] False
          (Request_default\<lparr>method := M\<rparr>)"
    and p2: "parse (M @ SPACE # rest) (length (M @ SPACE # rest)) Request_default
      \<noteq> Some (Inr (method_too_long, q))"
    by (rule method_limit_passed [OF M'(1,2,4,5,6)]; simp add: dflt)+
  have p3: "parse (M @ c # rest) (length (M @ c # rest)) Request_default
      = Some (Inr (method_too_long, Request_default\<lparr>method := M\<rparr>))"
    by (rule method_limit_exceeded [OF M'(3,4,5,6) c']; simp add: dflt)
  have p4: "parse_loop (m @ SPACE # T @ SPACE # rest) (length (m @ SPACE # T @ SPACE # rest))
        0 St_method [] False Request_default
      = parse_loop (m @ SPACE # T @ SPACE # rest) (length (m @ SPACE # T @ SPACE # rest))
          (length m + length T + 2) St_version [] False
          (Request_default\<lparr>method := m, url := T\<rparr>)"
    and p5: "parse (m @ SPACE # T @ SPACE # rest) (length (m @ SPACE # T @ SPACE # rest))
        Request_default \<noteq> Some (Inr (url_too_long, q))"
    by (rule url_limit_passed [OF m' T'(1,2,4,5,6)]; simp add: dflt)+
  have p6: "parse (m @ SPACE # T @ c # rest) (length (m @ SPACE # T @ c # rest)) Request_default
      = Some (Inr (url_too_long, Request_default\<lparr>method := m, url := T\<rparr>))"
    by (rule url_limit_exceeded [OF m' T'(3,4,5,6) c']; simp add: dflt)
  have p7: "parse_loop (m @ SPACE # u @ SPACE # V @ CR # LF # rest)
        (length (m @ SPACE # u @ SPACE # V @ CR # LF # rest)) 0 St_method [] False Request_default
      = parse_loop (m @ SPACE # u @ SPACE # V @ CR # LF # rest)
          (length (m @ SPACE # u @ SPACE # V @ CR # LF # rest))
          (length m + length u + length V + 4) St_headers [] False
          (Request_default\<lparr>method := m, url := u, version := V\<rparr>)"
    and p8: "parse (m @ SPACE # u @ SPACE # V @ CR # LF # rest)
        (length (m @ SPACE # u @ SPACE # V @ CR # LF # rest)) Request_default
      \<noteq> Some (Inr (version_too_long, q))"
    by (rule version_limit_passed [OF m' u' V'(1,2) V(2)]; simp add: dflt)+
  have p9: "parse (m @ SPACE # u @ SPACE # V @ cv # rest)
        (length (m @ SPACE # u @ SPACE # V @ cv # rest)) Request_default
      = Some (Inr (version_too_long, Request_default\<lparr>method := m, url := u, version := V\<rparr>))"
    by (rule version_limit_exceeded [OF m' u' V'(3) V(2) cv]; simp add: dflt)
  show ?thesis
    unfolding Let_def using p1 p2 p3 p4 p5 p6 p7 p8 p9 by blast
qed

theorem C5_length_limits_witness:
  "(let data = replicate 32 (CHR ''M'') @ SPACE # ''tail''; len = length data in
      parse_loop data len 0 St_method [] False Request_default
        = parse_loop data len (length (replicate 32 (CHR ''M'')) + 1) St_url [] False
            (Request_default\<lparr>method := replicate 32 (CHR ''M'')\<rparr>) \<and>
      parse data len Request_default \<noteq> Some (Inr (method_too_long, Request_default))) \<and>
   (let data = replicate 32 (CHR ''M'') @ CHR ''x'' # ''tail'' in
      parse data (length data) Request_default
        = Some (Inr (method_too_long,
             Request_default\<lparr>method := replicate 32 (CHR ''M'')\<rparr>))) \<and>
   (let data = ''GET'' @ SPACE # replicate 1024 (CHR ''u'') @ SPACE # ''tail'';
        len = length data in
      parse_loop data len 0 St_method [] False Request_default
        = parse_loop data len (length ''GET'' + length (replicate 1024 (CHR ''u'')) + 2)
            St_version [] False
            (Request_default\<lparr>method := ''GET'', url := replicate 1024 (CHR ''u'')\<rparr>) \<and>
      parse data len Request_default \<noteq> Some (Inr (url_too_long, Request_default))) \<and>
   (let data = ''GET'' @ SPACE # replicate 1024 (CHR ''u'') @ CHR ''x'' # ''tail'' in
      parse data (length data) Request_default
        = Some (Inr (url_too_long,
             Request_default\<lparr>method := ''GET'', url := replicate 1024 (CHR ''u'')\<rparr>))) \<and>
   (let data = ''GET'' @ SPACE # ''/x'' @ SPACE # replicate 32 (CHR ''v'') @ CR # LF # ''tail'';
        len = length data in
      parse_loop data len 0 St_method [] False Request_default
        = parse_loop data len
            (length ''GET'' + length ''/x'' + length (replicate 32 (CHR ''v'')) + 4)
            St_headers [] False
            (Request_default\<lparr>method := ''GET'', url := ''/x'',
               version := replicate 32 (CHR ''v'')\<rparr>) \<and>
      parse data len Request_default \<noteq> Some (Inr (version_too_long, Request_default))) \<and>
   (let data = ''GET'' @ SPACE # ''/x'' @ SPACE # replicate 32 (CHR ''v'') @ CHR ''y'' # ''tail'' in
      parse data (length data) Request_default
        = Some (Inr (version_too_long,
             Request_default\<lparr>method := ''GET'', url := ''/x'',
               version := replicate 32 (CHR ''v'')\<rparr>)))"
  by (rule C5_length_limits) (simp_all add: SPACE_def CR_def LF_def)

text \<open>
  C6 reads: a lone LF where CRLF is expected makes \<open>parse\<close> fail, with \<open>invalid_crlf\<close>
  when it ends the version and \<open>invalid_headers\<close> inside the header block. The second half
  is what the headers state does. The version state, unlike the method and url states, has
  no test for LF: the LF and the bytes after it are appended to the version until a CR
  comes, and the request below, whose request line ends in a lone LF, is parsed with
  \<open>success\<close> and the version \<open>HTTP/1.1\<close>, LF, \<open>A: b\<close>.
\<close>

theorem C6_lone_LF_ends_version_accepted:
  "parse (''GET /x HTTP/1.1'' @ [LF] @ ''A: b'' @ CRLF @ ''C: d'' @ CRLF @ CRLF)
     (length (''GET /x HTTP/1.1'' @ [LF] @ ''A: b'' @ CRLF @ ''C: d'' @ CRLF @ CRLF))
     Request_default
   = Some (Inr (success, \<lparr>method = ''GET'', url = ''/x'',
        version = ''HTTP/1.1'' @ [LF] @ ''A: b'', headers = [''C'' \<mapsto> ''d'']\<rparr>))"
proof -
  let ?v = "''HTTP/1.1'' @ [LF] @ ''A: b''"
  let ?kvs = "[(''C'', ''d'')]"
  have "\<not> sublist '': '' ''C''" by code_simp
  then have "parse (request_text ''GET'' ''/x'' ?v (map header_line ?kvs) @ [])
       (length (request_text ''GET'' ''/x'' ?v (map header_line ?kvs))) Request_default
     = Some (Inr (success, Request_default\<lparr>method := ''GET'', url := ''/x'',
          version := ?v, headers := map_of ?kvs ++ headers Request_default\<rparr>))"
    by (intro parse_request_text_wellformed)
       (simp_all add: SPACE_def CR_def LF_def max_method_len_def max_url_len_def
          max_version_len_def Request_default_fields)
  moreover have "request_text ''GET'' ''/x'' ?v (map header_line ?kvs)
      = ''GET /x HTTP/1.1'' @ [LF] @ ''A: b'' @ CRLF @ ''C: d'' @ CRLF @ CRLF"
    by (simp add: request_text_def header_line_def SPACE_def)
  ultimately show ?thesis by (simp add: Request_default_def)
qed

text \<open>
  C7. Whenever \<open>parse\<close> returns \<open>success\<close>, the method, url and version of the record are
  non-empty and at most 32, 1024 and 32 bytes long. The record passed in must itself be
  within the limits, as the default-constructed record of a fresh call is: the limit
  checks compare the length with the limit by \<open>==\<close>.
\<close>

theorem C7_success_record_invariant:
  assumes "parse data len req = Some (Inr (success, req'))"
    and "length (method req) \<le> 32" "length (url req) \<le> 1024" "length (version req) \<le> 32"
  shows "method req' \<noteq> [] \<and> url req' \<noteq> [] \<and> version req' \<noteq> [] \<and>
         length (method req') \<le> 32 \<and> length (url req') \<le> 1024 \<and> length (version req') \<le> 32"
proof -
  from assms(1) obtain hdrs req1
    where loop: "parse_loop data len 0 St_method [] False req = Inr (Finished hdrs req1)"
      and split: "split_headers hdrs req1 = Some (Inr (True, req'))"
    using parse_loop_not_success [of data len 0 St_method "[]" False req req']
    by (auto simp: parse_def split: sum.splits loop_exit.splits option.splits if_splits)
  from assms(2-) have "within_limits req" "tokens_seen St_method [] req"
    by (simp_all add: within_limits_def tokens_seen_def max_method_len_def max_url_len_def
        max_version_len_def)
  with loop have inv: "within_limits req1"
    "hdrs \<noteq> [] \<longrightarrow> method req1 \<noteq> [] \<and> url req1 \<noteq> [] \<and> version req1 \<noteq> []"
    using parse_loop_finished_invariant by blast+
  from split have "hdrs \<noteq> []"
    by (auto simp: split_headers_empty)
  moreover from split_headers_fields [OF split]
  have "method req' = method req1" "url req' = url req1" "version req' = version req1"
    by simp_all
  ultimately show ?thesis
    using inv by (simp add: within_limits_def max_method_len_def max_url_len_def
        max_version_len_def)
qed


theorem C7_success_record_invariant_witness:
  "parse (request_text ''GET'' ''/x'' ''HTTP/1.1'' (map header_line [(''Host'', ''example.com'')]))
     (length (request_text ''GET'' ''/x'' ''HTTP/1.1''
        (map header_line [(''Host'', ''example.com'')])))
     Request_default
   = Some (Inr (success, \<lparr>method = ''GET'', url = ''/x'', version = ''HTTP/1.1'',
        headers = [''Host'' \<mapsto> ''example.com'']\<rparr>)) \<and>
   method \<lparr>method = ''GET'', url = ''/x'', version = ''HTTP/1.1'',
        headers = [''Host'' \<mapsto> ''example.com'']\<rparr> \<noteq> [] \<and>
   length (url \<lparr>method = ''GET'', url = ''/x'', version = ''HTTP/1.1'',
        headers = [''Host'' \<mapsto> ''example.com'']\<rparr>) \<le> 1024"
proof -
  let ?kvs = "[(''Host'', ''example.com'')]"
  have "\<not> sublist '': '' ''Host''" by code_simp
  then have "parse (request_text ''GET'' ''/x'' ''HTTP/1.1'' (map header_line ?kvs) @ [])
       (length (request_text ''GET'' ''/x'' ''HTTP/1.1'' (map header_line ?kvs))) Request_default
     = Some (Inr (success, Request_default\<lparr>method := ''GET'', url := ''/x'',
          version := ''HTTP/1.1'', headers := map_of ?kvs ++ headers Request_default\<rparr>))"
    by (intro parse_request_text_wellformed)
       (simp_all add: SPACE_def CR_def LF_def max_method_len_def max_url_len_def
          max_version_len_def Request_default_fields)
  then have ex: "parse (request_text ''GET'' ''/x'' ''HTTP/1.1'' (map header_line ?kvs))
       (length (request_text ''GET'' ''/x'' ''HTTP/1.1'' (map header_line ?kvs))) Request_default
     = Some (Inr (success, \<lparr>method = ''GET'', url = ''/x'', version = ''HTTP/1.1'',
          headers = [''Host'' \<mapsto> ''example.com'']\<rparr>))"
    by (simp add: Request_default_def)
  from C7_success_record_invariant [OF ex] ex show ?thesis
    by (simp add: Request_default_def)
qed

text \<open>
  C8. When a key occurs on two (or more) header lines of a well-formed request, \<open>parse\<close>
  succeeds and the header map holds the value of the first line with that key: \<open>emplace\<close>
  does not overwrite. Here \<open>(k, v1)\<close> is the first line with key \<open>k\<close> and \<open>(k, v2)\<close> a later
  one.
\<close>

theorem C8_first_occurrence_wins:
  assumes "m \<noteq> []" "length m \<le> 32" "set m \<inter> {SPACE, CR, LF} = {}"
    and "t \<noteq> []" "length t \<le> 1024" "set t \<inter> {SPACE, CR, LF} = {}"
    and "v \<noteq> []" "length v \<le> 32" "set v \<inter> {SPACE, CR, LF} = {}"
    and "kvs = before @ (k, v1) # between @ (k, v2) # after"
    and "k \<notin> fst ` set before"
    and "\<forall>kv \<in> set kvs. set (fst kv) \<inter> {CR, LF} = {} \<and> set (snd kv) \<inter> {CR, LF} = {} \<and>
           \<not> sublist '': '' (fst kv)"
  shows "\<exists>req'. parse (request_text m t v (map header_line kvs))
                  (length (request_text m t v (map header_line kvs))) Request_default
               = Some (Inr (success, req')) \<and> headers req' k = Some v1"
proof -
  from assms(12)
  have ok: "\<forall>kv \<in> set kvs. CR \<notin> set (fst kv) \<and> LF \<notin> set (fst kv) \<and>
         CR \<notin> set (snd kv) \<and> LF \<notin> set (snd kv) \<and> \<not> sublist '': '' (fst kv)"
    by auto
  from assms(10) have ne: "kvs \<noteq> []" by simp
  have "parse (request_text m t v (map header_line kvs) @ [])
           (length (request_text m t v (map header_line kvs))) Request_default
        = Some (Inr (success, Request_default\<lparr>method := m, url := t, version := v,
             headers := map_of kvs ++ headers Request_default\<rparr>))"
  proof (rule parse_request_text_wellformed [OF _ _ _ _ _ _ _ _ _ _ _ _ _ ne ok])
  qed (use assms in \<open>auto simp: max_method_len_def max_url_len_def max_version_len_def
        Request_default_fields\<close>)
  moreover from assms(11) have "map_of before k = None"
    by (simp add: map_of_eq_None_iff)
  then have "map_of kvs k = Some v1"
    by (simp add: assms(10) map_add_def)
  ultimately show ?thesis by (simp add: Request_default_fields)
qed

theorem C8_first_occurrence_wins_witness:
  "\<exists>req'. parse (request_text ''GET'' ''/x'' ''HTTP/1.1''
                (map header_line ([(''Host'', ''a'')] @ (''Accept'', ''first'') # [(''Via'', ''b'')] @
                   (''Accept'', ''second'') # [])))
             (length (request_text ''GET'' ''/x'' ''HTTP/1.1''
                (map header_line ([(''Host'', ''a'')] @ (''Accept'', ''first'') # [(''Via'', ''b'')] @
                   (''Accept'', ''second'') # []))))
             Request_default
           = Some (Inr (success, req')) \<and> headers req' ''Accept'' = Some ''first''"
proof -
  have "\<not> sublist '': '' ''Host''" "\<not> sublist '': '' ''Accept''" "\<not> sublist '': '' ''Via''"
    by code_simp+
  then show ?thesis
    by (intro C8_first_occurrence_wins [where before = "[(''Host'', ''a'')]"
          and between = "[(''Via'', ''b'')]" and after = "[]" and ?v2.0 = "''second''"])
       (simp_all add: SPACE_def CR_def LF_def)
qed

text \<open>
  C9. \<open>parse\<close> never returns \<open>invalid_version\<close>, whatever the buffer, the length and
  the record passed in: no pass of the loop returns it, and after the loop only
  \<open>invalid_headers\<close> and \<open>success\<close> are returned.
\<close>

theorem C9_never_invalid_version:
  "parse data len req \<noteq> Some (Inr (invalid_version, req'))"
  using parse_loop_not_invalid_version [of data len 0 St_method "[]" False req req']
  by (auto simp: parse_def split: sum.splits loop_exit.splits option.splits)


text \<open>
  C10. For the empty input (length 0) \<open>parse\<close> returns \<open>invalid_headers\<close>: the loop never
  runs, the header text is empty, splitting it gives the single empty line, and that line
  has no separator. Nothing was written to the record.
\<close>

theorem C10_empty_input_invalid_headers:
  "parse data 0 req = Some (Inr (invalid_headers, req))"
proof -
  have "parse_loop data 0 0 St_method [] False req = Inr (Finished [] req)"
    by (simp add: parse_loop_done)
  then show ?thesis
    by (simp add: parse_def split_headers_empty)
qed

end
